theory Spec2Isabelle
  imports Complex_Main "HOL-Library.Signed_Division"
begin

section \<open>The SBV to SRT converter (package sbv, convert.go)\<close>

text \<open>
  A Go \<open>string\<close> is a sequence of bytes, here \<^typ>\<open>string\<close> (a list of 8-bit
  \<^typ>\<open>char\<close>). A \<open>time.Duration\<close> is a signed 64-bit count of nanoseconds, here
  an \<^typ>\<open>int\<close>; the parser only builds durations below 24 hours, so no operation of
  the model leaves the 64-bit range on the values the parser produces. Go's \<open>int\<close>
  is taken to be 64 bits wide (a 64-bit platform).
\<close>

subsection \<open>Library functions the package calls\<close>

text \<open>
  \<open>strings.Split(s, sep)\<close> for a separator of one byte (the package only splits at
  \<open>","\<close>, \<open>":"\<close> and \<open>"."\<close>): the pieces between the separators, one more
  than there are separators; the empty string gives one empty piece.
\<close>

fun Split :: "string \<Rightarrow> char \<Rightarrow> string list" where
  "Split [] sep = [[]]"
| "Split (c # cs) sep =
     (if c = sep then [] # Split cs sep
      else (case Split cs sep of
              [] \<Rightarrow> [[c]]
            | piece # pieces \<Rightarrow> (c # piece) # pieces))"

text \<open>\<open>strings.Join(elems, sep)\<close>.\<close>

fun Join :: "string list \<Rightarrow> string \<Rightarrow> string" where
  "Join [] sep = []"
| "Join [x] sep = x"
| "Join (x # y # zs) sep = x @ sep @ Join (y # zs) sep"

text \<open>
  \<open>strings.ContainsRune(s, r)\<close> for a rune below \<open>utf8.RuneSelf\<close> (the package asks
  for \<open>','\<close> and \<open>':'\<close>): a byte search.
\<close>

definition ContainsRune :: "string \<Rightarrow> char \<Rightarrow> bool" where
  "ContainsRune s r = (r \<in> set s)"

text \<open>
  \<open>strings.TrimSpace\<close> removes the white space runes (\<open>unicode.IsSpace\<close>) at both
  ends of a string. On bytes: a white space rune at the start of a string is one of
  the UTF-8 encodings below as a prefix (the decoder is deterministic and accepts only
  the shortest encoding), and the last rune is a white space rune exactly when one of
  the encodings is a suffix (\<open>utf8.DecodeLastRuneInString\<close> walks back to the nearest
  start byte, and every byte after the first of an encoding is a continuation byte).
  The runes are U+0009 to U+000D, U+0020, U+0085, U+00A0, U+1680, U+2000 to U+200A,
  U+2028, U+2029, U+202F, U+205F and U+3000.
\<close>

definition spaceEncodings :: "string list" where
  "spaceEncodings =
     [[CHR 0x09], [CHR 0x0A], [CHR 0x0B], [CHR 0x0C], [CHR 0x0D], [CHR 0x20],
      [CHR 0xC2, CHR 0x85], [CHR 0xC2, CHR 0xA0],
      [CHR 0xE1, CHR 0x9A, CHR 0x80],
      [CHR 0xE2, CHR 0x80, CHR 0x80], [CHR 0xE2, CHR 0x80, CHR 0x81],
      [CHR 0xE2, CHR 0x80, CHR 0x82], [CHR 0xE2, CHR 0x80, CHR 0x83],
      [CHR 0xE2, CHR 0x80, CHR 0x84], [CHR 0xE2, CHR 0x80, CHR 0x85],
      [CHR 0xE2, CHR 0x80, CHR 0x86], [CHR 0xE2, CHR 0x80, CHR 0x87],
      [CHR 0xE2, CHR 0x80, CHR 0x88], [CHR 0xE2, CHR 0x80, CHR 0x89],
      [CHR 0xE2, CHR 0x80, CHR 0x8A],
      [CHR 0xE2, CHR 0x80, CHR 0xA8], [CHR 0xE2, CHR 0x80, CHR 0xA9],
      [CHR 0xE2, CHR 0x80, CHR 0xAF],
      [CHR 0xE2, CHR 0x81, CHR 0x9F],
      [CHR 0xE3, CHR 0x80, CHR 0x80]]"

text \<open>The width in bytes of the first of the given encodings the string starts with.\<close>

fun leadingWidth :: "string list \<Rightarrow> string \<Rightarrow> nat" where
  "leadingWidth [] s = 0"
| "leadingWidth (e # es) s =
     (if e \<noteq> [] \<and> take (length e) s = e then length e else leadingWidth es s)"

function trimLeading :: "string list \<Rightarrow> string \<Rightarrow> string" where
  "trimLeading encs s =
     (if leadingWidth encs s = 0 then s
      else trimLeading encs (drop (leadingWidth encs s) s))"
  by pat_completeness auto

termination trimLeading
proof (relation "measure (\<lambda>(encs, s). length s)")
  show "wf (measure (\<lambda>(encs, s). length s))" by simp
next
  fix encs :: "string list" and s :: string
  assume w: "leadingWidth encs s \<noteq> 0"
  have "leadingWidth es [] = 0" for es :: "string list"
    by (induction es) auto
  with w have "s \<noteq> []" by metis
  with w show "((encs, drop (leadingWidth encs s) s), (encs, s))
                 \<in> measure (\<lambda>(encs, s). length s)"
    by simp
qed

declare trimLeading.simps [simp del]

definition TrimSpace :: "string \<Rightarrow> string" where
  "TrimSpace s =
     rev (trimLeading (map rev spaceEncodings) (rev (trimLeading spaceEncodings s)))"

text \<open>
  \<open>strconv.Atoi\<close> (base 10, 64-bit \<open>int\<close>): an optional sign \<open>+\<close> or \<open>-\<close>, then
  one or more decimal digits, the value within the 64-bit range. It fails on anything
  else. The package never looks at the kind of the failure (syntax or range), so the
  model returns \<open>None\<close> for both.
\<close>

definition isDigit :: "char \<Rightarrow> bool" where
  "isDigit c = (48 \<le> (of_char c :: nat) \<and> (of_char c :: nat) \<le> 57)"

definition digitVal :: "char \<Rightarrow> int" where
  "digitVal c = int (of_char c) - 48"

fun parseDigits :: "string \<Rightarrow> int \<Rightarrow> int option" where
  "parseDigits [] n = Some n"
| "parseDigits (c # cs) n =
     (if isDigit c then parseDigits cs (n * 10 + digitVal c) else None)"

definition Atoi :: "string \<Rightarrow> int option" where
  "Atoi s =
     (case s of
        [] \<Rightarrow> None
      | c # cs \<Rightarrow>
          (let body = (if c = CHR ''-'' \<or> c = CHR ''+'' then cs else s) in
           if body = [] then None
           else (case parseDigits body 0 of
                   None \<Rightarrow> None
                 | Some n \<Rightarrow>
                     (let v = (if c = CHR ''-'' then - n else n) in
                      if - (2 ^ 63) \<le> v \<and> v < 2 ^ 63 then Some v else None))))"

text \<open>
  \<open>strconv.Itoa\<close> and the verb \<open>%0wd\<close> of \<open>fmt.Sprintf\<close>: decimal digits, the
  sign first; \<open>%0wd\<close> pads with zeros after the sign up to \<open>w\<close> bytes in all.
\<close>

definition digitChar :: "nat \<Rightarrow> char" where
  "digitChar d = char_of (48 + d)"

fun digitsOf :: "nat \<Rightarrow> string" where
  "digitsOf n = (if n < 10 then [digitChar n] else digitsOf (n div 10) @ [digitChar (n mod 10)])"

declare digitsOf.simps [simp del]

definition Itoa :: "int \<Rightarrow> string" where
  "Itoa i = (if i < 0 then CHR ''-'' # digitsOf (nat (- i)) else digitsOf (nat i))"

definition zeroPad :: "nat \<Rightarrow> string \<Rightarrow> string" where
  "zeroPad w s = replicate (w - length s) (CHR ''0'') @ s"

definition SprintfPadded :: "nat \<Rightarrow> int \<Rightarrow> string" where
  "SprintfPadded w i =
     (if i < 0 then CHR ''-'' # zeroPad (w - 1) (digitsOf (nat (- i)))
      else zeroPad w (digitsOf (nat i)))"

text \<open>
  \<open>bufio.Scanner\<close> with the default split function \<open>bufio.ScanLines\<close>: the input is
  cut at every line feed, a last line without a line feed counts when it is not empty,
  and one carriage return at the end of a line is dropped. The scanner's buffer holds
  \<open>bufio.MaxScanTokenSize\<close> = 65536 bytes: a line of 65536 bytes or more before its
  line feed stops the scan with \<open>bufio.ErrTooLong\<close>, which \<open>scanner.Err()\<close> reports.
\<close>

fun ScanLines :: "string \<Rightarrow> string list" where
  "ScanLines [] = []"
| "ScanLines (c # cs) =
     (if c = CHR 0x0A then [] # ScanLines cs
      else (case ScanLines cs of
              [] \<Rightarrow> [[c]]
            | l # ls \<Rightarrow> (c # l) # ls))"

definition dropCR :: "string \<Rightarrow> string" where
  "dropCR l = (if l \<noteq> [] \<and> last l = CHR 0x0D then butlast l else l)"

definition MaxScanTokenSize :: nat where
  "MaxScanTokenSize = 65536"

subsection \<open>Data model and errors\<close>

record Subtitle =
  StartTime :: int
  EndTime :: int
  Text :: string

definition Millisecond :: int where "Millisecond = 1000000"
definition Second :: int where "Second = 1000000000"
definition Minute :: int where "Minute = 60000000000"
definition Hour :: int where "Hour = 3600000000000"

text \<open>One constructor for each \<open>fmt.Errorf\<close> of the package, with its arguments.\<close>

datatype time_error =
    InvalidTimeFormat string
  | InvalidHours string
  | HoursOutOfRange int
  | InvalidMinutes string
  | MinutesOutOfRange int
  | InvalidSecondsFormat string
  | InvalidSeconds string
  | SecondsOutOfRange int
  | InvalidMilliseconds string
  | MillisecondsOutOfRange int

datatype timestamps_error =
    InvalidTimestampFormat string
  | FailedStartTime time_error
  | FailedEndTime time_error

datatype block_error =
    StartIndexOutOfBounds
  | FailedTimestamps timestamps_error

datatype parse_error =
    ErrorReadingInput
  | FailedSubtitleBlock block_error

subsection \<open>The parser\<close>

definition parseTime :: "string \<Rightarrow> time_error + int" where
  "parseTime timeStr =
     (case Split timeStr (CHR '':'') of
        [p0, p1, p2] \<Rightarrow>
          (case Atoi p0 of
             None \<Rightarrow> Inl (InvalidHours p0)
           | Some hours \<Rightarrow>
               if hours < 0 \<or> hours > 23 then Inl (HoursOutOfRange hours)
               else
                 (case Atoi p1 of
                    None \<Rightarrow> Inl (InvalidMinutes p1)
                  | Some minutes \<Rightarrow>
                      if minutes < 0 \<or> minutes > 59 then Inl (MinutesOutOfRange minutes)
                      else
                        (case Split p2 (CHR ''.'') of
                           [s0, s1] \<Rightarrow>
                             (case Atoi s0 of
                                None \<Rightarrow> Inl (InvalidSeconds s0)
                              | Some seconds \<Rightarrow>
                                  if seconds < 0 \<or> seconds > 59
                                  then Inl (SecondsOutOfRange seconds)
                                  else
                                    (case Atoi s1 of
                                       None \<Rightarrow> Inl (InvalidMilliseconds s1)
                                     | Some milliseconds \<Rightarrow>
                                         if milliseconds < 0 \<or> milliseconds > 999
                                         then Inl (MillisecondsOutOfRange milliseconds)
                                         else Inr (hours * Hour + minutes * Minute
                                                   + seconds * Second
                                                   + milliseconds * Millisecond)))
                         | _ \<Rightarrow> Inl (InvalidSecondsFormat p2))))
      | _ \<Rightarrow> Inl (InvalidTimeFormat timeStr))"

definition parseTimestamps :: "string \<Rightarrow> timestamps_error + (int \<times> int)" where
  "parseTimestamps timestampLine =
     (case Split timestampLine (CHR '','') of
        [part0, part1] \<Rightarrow>
          (case parseTime (TrimSpace part0) of
             Inl err \<Rightarrow> Inl (FailedStartTime err)
           | Inr startTime \<Rightarrow>
               (case parseTime (TrimSpace part1) of
                  Inl err \<Rightarrow> Inl (FailedEndTime err)
                | Inr endTime \<Rightarrow> Inr (startTime, endTime)))
      | _ \<Rightarrow> Inl (InvalidTimestampFormat timestampLine))"

definition isTimestampLine :: "string \<Rightarrow> bool" where
  "isTimestampLine line = (ContainsRune line (CHR '','') \<and> ContainsRune line (CHR '':''))"

text \<open>
  The loop of \<open>parseSubtitleBlock\<close> that collects the text lines: it runs while
  \<open>currentIndex\<close> is in range and the line there is not empty.
\<close>

function textLoop :: "string list \<Rightarrow> nat \<Rightarrow> string list \<Rightarrow> string list \<times> nat" where
  "textLoop lines currentIndex textLines =
     (if currentIndex < length lines \<and> lines ! currentIndex \<noteq> []
      then textLoop lines (currentIndex + 1) (textLines @ [lines ! currentIndex])
      else (textLines, currentIndex))"
  by pat_completeness auto
termination
  by (relation "measure (\<lambda>(lines, currentIndex, textLines). length lines - currentIndex)") auto

declare textLoop.simps [simp del]

definition parseSubtitleBlock ::
  "string list \<Rightarrow> nat \<Rightarrow> block_error + (Subtitle \<times> nat)" where
  "parseSubtitleBlock lines startIndex =
     (if startIndex \<ge> length lines then Inl StartIndexOutOfBounds
      else
        (case parseTimestamps (lines ! startIndex) of
           Inl err \<Rightarrow> Inl (FailedTimestamps err)
         | Inr (startTime, endTime) \<Rightarrow>
             (case textLoop lines (startIndex + 1) [] of
                (textLines, currentIndex) \<Rightarrow>
                  Inr (\<lparr>StartTime = startTime, EndTime = endTime,
                        Text = Join textLines [CHR 0x0A]\<rparr>, currentIndex))))"

text \<open>
  The loop of \<open>ParseFromReader\<close> over the trimmed lines, \<open>i\<close> the loop variable and
  \<open>subtitles\<close> the slice built so far. After a block the source sets \<open>i\<close> to
  \<open>nextIndex - 1\<close> and the loop header adds one.
\<close>

function scanLoop ::
  "string list \<Rightarrow> nat \<Rightarrow> Subtitle list \<Rightarrow> parse_error + Subtitle list" where
  "scanLoop lines i subtitles =
     (if i < length lines then
        (if lines ! i = [] then scanLoop lines (i + 1) subtitles
         else if isTimestampLine (lines ! i) then
           (case parseSubtitleBlock lines i of
              Inl err \<Rightarrow> Inl (FailedSubtitleBlock err)
            | Inr (subtitle, nextIndex) \<Rightarrow>
                scanLoop lines ((nextIndex - 1) + 1) (subtitles @ [subtitle]))
         else scanLoop lines (i + 1) subtitles)
      else Inr subtitles)"
  by pat_completeness auto
termination
proof (relation "measure (\<lambda>(lines, i, subtitles). length lines - i)")
  show "wf (measure (\<lambda>(lines, i, subtitles). length lines - i))" by simp
next
  fix lines :: "string list" and i :: nat and subtitles :: "Subtitle list"
  assume "i < length lines"
  then show "((lines, i + 1, subtitles), (lines, i, subtitles))
               \<in> measure (\<lambda>(lines, i, subtitles). length lines - i)"
    by simp
next
  fix lines :: "string list" and i :: nat and subtitles :: "Subtitle list"
    and x2 :: "Subtitle \<times> nat" and subtitle :: Subtitle and nextIndex :: nat
  assume lt: "i < length lines"
    and blk: "parseSubtitleBlock lines i = Inr x2" and x2: "(subtitle, nextIndex) = x2"
  have mono: "i \<le> snd (textLoop ls i acc)" for ls :: "string list" and i acc
  proof (induction ls i acc rule: textLoop.induct)
    case (1 ls i acc)
    show ?case
    proof (cases "i < length ls \<and> ls ! i \<noteq> []")
      case True
      with 1 have "i + 1 \<le> snd (textLoop ls (i + 1) (acc @ [ls ! i]))" by simp
      with True show ?thesis by (subst textLoop.simps) simp
    next
      case False
      then show ?thesis by (subst textLoop.simps) auto
    qed
  qed
  from blk x2 lt have "nextIndex = snd (textLoop lines (i + 1) [])"
    by (auto simp: parseSubtitleBlock_def split: sum.splits prod.splits)
  with mono have "i + 1 \<le> nextIndex" by simp
  with lt show "((lines, nextIndex - 1 + 1, subtitles @ [subtitle]), (lines, i, subtitles))
                 \<in> measure (\<lambda>(lines, i, subtitles). length lines - i)"
    by simp
next
  fix lines :: "string list" and i :: nat and subtitles :: "Subtitle list"
  assume "i < length lines"
  then show "((lines, i + 1, subtitles), (lines, i, subtitles))
               \<in> measure (\<lambda>(lines, i, subtitles). length lines - i)"
    by simp
qed

declare scanLoop.simps [simp del]

text \<open>
  \<open>ParseFromReader\<close> on a reader that delivers the bytes of \<open>input\<close> (as
  \<open>strings.NewReader\<close> or a file does): the first loop collects the trimmed lines,
  \<open>scanner.Err()\<close> is checked, then the lines are scanned.
\<close>

definition readLines :: "string \<Rightarrow> parse_error + string list" where
  "readLines input =
     (if list_ex (\<lambda>l. length l \<ge> MaxScanTokenSize) (ScanLines input)
      then Inl ErrorReadingInput
      else Inr (map (\<lambda>l. TrimSpace (dropCR l)) (ScanLines input)))"

definition ParseFromReader :: "string \<Rightarrow> parse_error + Subtitle list" where
  "ParseFromReader input =
     (case readLines input of
        Inl err \<Rightarrow> Inl err
      | Inr lines \<Rightarrow> scanLoop lines 0 [])"

subsection \<open>The formatter\<close>

text \<open>
  \<open>duration.Hours()\<close>, \<open>Minutes()\<close> and \<open>Seconds()\<close> of package \<open>time\<close> return
  the \<open>float64\<close> sum \<open>float64(d / unit) + float64(d % unit) / unit\<close>, with Go's
  truncating \<open>/\<close> and \<open>%\<close> on \<open>int64\<close>, and \<open>int(...)\<close> truncates the sum towards
  zero. A \<open>float64\<close> is modelled by its exact value: the pair \<open>(m, e)\<close> stands for
  \<open>m * 2 ^ e\<close>. The division and the addition round to the nearest \<open>float64\<close>, a
  mantissa of 53 bits, ties to the even mantissa (IEEE 754). The exponent range of
  \<open>float64\<close> plays no part: the whole units of an \<open>int64\<close> duration are below
  \<open>2 ^ 53\<close> in magnitude and convert exactly, the rest divided by its unit is zero or at
  least \<open>2 ^ - 42\<close> in magnitude, and the sums are below \<open>2 ^ 34\<close>.
\<close>

type_synonym float64 = "int \<times> int"

text \<open>The number of bits of a positive integer.\<close>

function bitLength :: "int \<Rightarrow> int" where
  "bitLength n = (if n \<le> 0 then 0 else 1 + bitLength (n div 2))"
  by pat_completeness auto
termination
  by (relation "measure nat") auto

declare bitLength.simps [simp del]

text \<open>The integer nearest to \<open>p / q\<close> for a positive \<open>q\<close>, ties to the even one.\<close>

definition roundHalfEven :: "int \<Rightarrow> int \<Rightarrow> int" where
  "roundHalfEven p q =
     (if 2 * (p mod q) < q then p div q
      else if q < 2 * (p mod q) then p div q + 1
      else if even (p div q) then p div q else p div q + 1)"

text \<open>\<open>scaled n d e\<close> is a numerator and a denominator of \<open>n / (d * 2 ^ e)\<close>.\<close>

definition scaled :: "int \<Rightarrow> int \<Rightarrow> int \<Rightarrow> int \<times> int" where
  "scaled n d e = (if 0 \<le> e then (n, d * 2 ^ nat e) else (n * 2 ^ nat (- e), d))"

text \<open>
  The \<open>float64\<close> nearest to \<open>n / d\<close> for a positive \<open>d\<close>: the exponent \<open>e\<close> is
  the one that puts the magnitude of \<open>n / (d * 2 ^ e)\<close> from \<open>2 ^ 52\<close> (included) to
  \<open>2 ^ 53\<close> (excluded), and the mantissa is that quotient rounded.
\<close>

definition roundFloat64 :: "int \<Rightarrow> int \<Rightarrow> float64" where
  "roundFloat64 n d =
     (if n = 0 then (0, 0)
      else
        (let e1 = bitLength \<bar>n\<bar> - bitLength d - 53;
             e = (case scaled \<bar>n\<bar> d e1 of (a, b) \<Rightarrow> if a < b * 2 ^ 53 then e1 else e1 + 1)
         in (case scaled n d e of (p, q) \<Rightarrow> (roundHalfEven p q, e))))"

text \<open>\<open>float64(w) + f\<close> for an integer \<open>w\<close> that converts exactly: the exact sum, rounded.\<close>

definition addFloat64 :: "int \<Rightarrow> float64 \<Rightarrow> float64" where
  "addFloat64 w f =
     (case f of (m, e) \<Rightarrow>
        if 0 \<le> e then roundFloat64 (w + m * 2 ^ nat e) 1
        else roundFloat64 (w * 2 ^ nat (- e) + m) (2 ^ nat (- e)))"

text \<open>\<open>int(f)\<close>: the conversion truncates towards zero.\<close>

definition truncFloat64 :: "float64 \<Rightarrow> int" where
  "truncFloat64 f = (case f of (m, e) \<Rightarrow> if 0 \<le> e then m * 2 ^ nat e else m sdiv 2 ^ nat (- e))"

definition Hours :: "int \<Rightarrow> float64" where
  "Hours d = addFloat64 (d sdiv Hour) (roundFloat64 (d smod Hour) Hour)"

definition Minutes :: "int \<Rightarrow> float64" where
  "Minutes d = addFloat64 (d sdiv Minute) (roundFloat64 (d smod Minute) Minute)"

definition Seconds :: "int \<Rightarrow> float64" where
  "Seconds d = addFloat64 (d sdiv Second) (roundFloat64 (d smod Second) Second)"

text \<open>
  \<open>formatSRTTime\<close>: \<open>%\<close> is Go's remainder, with the sign of the dividend, and
  \<open>int\<close> has 64 bits. The milliseconds are computed on integers in the source.
\<close>

definition formatSRTTime :: "int \<Rightarrow> string" where
  "formatSRTTime duration =
     (let hours = truncFloat64 (Hours duration);
          minutes = truncFloat64 (Minutes duration) smod 60;
          seconds = truncFloat64 (Seconds duration) smod 60;
          milliseconds = (duration sdiv 1000000) smod 1000
      in SprintfPadded 2 hours @ '':'' @ SprintfPadded 2 minutes @ '':''
         @ SprintfPadded 2 seconds @ '','' @ SprintfPadded 3 milliseconds)"

text \<open>
  The body of the loop of \<open>ConvertToSRT\<close>: what it writes to the builder for the
  subtitle at index \<open>i\<close>.
\<close>

definition writeBlock :: "nat \<Rightarrow> Subtitle \<Rightarrow> string" where
  "writeBlock i subtitle =
     Itoa (int i + 1) @ [CHR 0x0A]
     @ formatSRTTime (StartTime subtitle) @ '' --> '' @ formatSRTTime (EndTime subtitle)
     @ [CHR 0x0A]
     @ Text subtitle @ [CHR 0x0A, CHR 0x0A]"

fun convertLoop :: "nat \<Rightarrow> Subtitle list \<Rightarrow> string \<Rightarrow> string" where
  "convertLoop i [] result = result"
| "convertLoop i (subtitle # rest) result =
     convertLoop (i + 1) rest (result @ writeBlock i subtitle)"

definition ConvertToSRT :: "Subtitle list \<Rightarrow> string" where
  "ConvertToSRT subtitles = convertLoop 0 subtitles []"

subsection \<open>Notions used to state the properties\<close>

text \<open>
  The positions of the loop of \<open>ParseFromReader\<close>: \<open>reached lines i\<close> holds when
  the loop over \<open>lines\<close> arrives at its header with the loop variable at \<open>i\<close>. It
  starts at 0 and steps as \<open>scanLoop\<close> does: over an empty line, over a block that
  parsed to the index after its text, over a line that is no timestamp line. A block
  that fails ends the loop, so no position is reached through it.
\<close>

inductive reached :: "string list \<Rightarrow> nat \<Rightarrow> bool" for lines :: "string list" where
  reached_start: "reached lines 0"
| reached_blank: "reached lines i \<Longrightarrow> i < length lines \<Longrightarrow> lines ! i = [] \<Longrightarrow> reached lines (i + 1)"
| reached_block: "reached lines i \<Longrightarrow> i < length lines \<Longrightarrow> lines ! i \<noteq> []
     \<Longrightarrow> isTimestampLine (lines ! i) \<Longrightarrow> parseSubtitleBlock lines i = Inr (subtitle, nextIndex)
     \<Longrightarrow> reached lines ((nextIndex - 1) + 1)"
| reached_stray: "reached lines i \<Longrightarrow> i < length lines \<Longrightarrow> lines ! i \<noteq> []
     \<Longrightarrow> \<not> isTimestampLine (lines ! i) \<Longrightarrow> reached lines (i + 1)"

code_pred reached .

text \<open>
  A rendered SRT time \<open>HH:MM:SS,mmm\<close> differs from the form \<open>parseTime\<close> reads
  only in the comma before the milliseconds. \<open>commaToDot\<close> writes a period for it,
  so that \<open>parseTime\<close> reads the four numeric fields of a rendered time.
\<close>

definition commaToDot :: "string \<Rightarrow> string" where
  "commaToDot s = map (\<lambda>c. if c = CHR '','' then CHR ''.'' else c) s"

text \<open>
  The parse of \<open>input\<close> aborts on a timestamp line: \<open>ParseFromReader\<close> returns
  the error \<open>err\<close> of \<open>parseTimestamps\<close>, wrapped by \<open>parseSubtitleBlock\<close>
  and by the loop, and so no list of subtitles.
\<close>

abbreviation abortsWith :: "string \<Rightarrow> timestamps_error \<Rightarrow> bool" where
  "abortsWith input err \<equiv>
     ParseFromReader input = Inl (FailedSubtitleBlock (FailedTimestamps err))"

section \<open>Properties\<close>

subsection \<open>Splitting and decimal numerals\<close>

lemma Split_not_Nil: "Split s sep \<noteq> []"
  by (induction s) (auto split: list.splits)

lemma Split_no_sep: "sep \<notin> set a \<Longrightarrow> Split a sep = [a]"
  by (induction a) auto

lemma Split_field: "sep \<notin> set a \<Longrightarrow> Split (a @ sep # b) sep = a # Split b sep"
  by (induction a) auto

lemma set_Split: "p \<in> set (Split s sep) \<Longrightarrow> set p \<subseteq> set s"
proof (induction s arbitrary: p)
  case Nil
  then show ?case by simp
next
  case (Cons c cs)
  show ?case
  proof (cases "c = sep")
    case True
    with Cons show ?thesis by auto
  next
    case False
    obtain q qs where q: "Split cs sep = q # qs"
      using Split_not_Nil [of cs sep] by (cases "Split cs sep") auto
    with False Cons.prems have "p = c # q \<or> p \<in> set qs" by simp
    moreover have "set q \<subseteq> set cs" using Cons.IH [of q] q by simp
    moreover have "p \<in> set qs \<Longrightarrow> set p \<subseteq> set cs" using Cons.IH [of p] q by simp
    ultimately show ?thesis by auto
  qed
qed

lemma isDigit_separators:
  "isDigit c \<Longrightarrow> c \<noteq> CHR '':'' \<and> c \<noteq> CHR ''.'' \<and> c \<noteq> CHR '','' \<and> c \<noteq> CHR ''-'' \<and> c \<noteq> CHR ''+''"
  by (auto simp: isDigit_def)

lemma parseDigits_all_digits: "parseDigits ds n = Some v \<Longrightarrow> list_all isDigit ds"
  by (induction ds arbitrary: n) (auto split: if_splits)

lemma digitVal_nonneg: "isDigit c \<Longrightarrow> 0 \<le> digitVal c"
  by (simp add: isDigit_def digitVal_def)

lemma parseDigits_mono: "parseDigits ds n = Some v \<Longrightarrow> 0 \<le> n \<Longrightarrow> n \<le> v"
proof (induction ds arbitrary: n)
  case Nil
  then show ?case by simp
next
  case (Cons c cs)
  from Cons.prems have d: "isDigit c" and r: "parseDigits cs (n * 10 + digitVal c) = Some v"
    by (auto split: if_splits)
  from d Cons.prems(2) have "0 \<le> n * 10 + digitVal c" "n \<le> n * 10 + digitVal c"
    using digitVal_nonneg [of c] by auto
  with Cons.IH [OF r] show ?case by linarith
qed

lemma parseDigits_append:
  "parseDigits (xs @ ys) n = (case parseDigits xs n of None \<Rightarrow> None | Some m \<Rightarrow> parseDigits ys m)"
  by (induction xs arbitrary: n) auto

lemma digits_no_sep: "list_all isDigit ds \<Longrightarrow> c \<in> {CHR '':'', CHR ''.'', CHR '','', CHR ''-'', CHR ''+''} \<Longrightarrow> c \<notin> set ds"
  using isDigit_separators by (auto simp: list_all_iff)

lemma Atoi_digits:
  assumes "ds \<noteq> []" "parseDigits ds 0 = Some v" "v < 2 ^ 63"
  shows "Atoi ds = Some v"
proof -
  from assms(1) obtain c cs where ds: "ds = c # cs" by (cases ds) auto
  from assms(2) have "list_all isDigit ds" by (rule parseDigits_all_digits)
  with ds have "isDigit c" by simp
  then have c: "c \<noteq> CHR ''-''" "c \<noteq> CHR ''+''" using isDigit_separators by auto
  from parseDigits_mono [OF assms(2)] have "0 \<le> v" by simp
  with assms c ds show ?thesis by (simp add: Atoi_def)
qed

lemma Atoi_minus_digits:
  assumes "ds \<noteq> []" "parseDigits ds 0 = Some n" "n \<le> 2 ^ 63"
  shows "Atoi (CHR ''-'' # ds) = Some (- n)"
proof -
  from parseDigits_mono [OF assms(2)] have "0 \<le> n" by simp
  with assms show ?thesis by (simp add: Atoi_def)
qed

lemma Atoi_Some_no_sep:
  assumes "Atoi f = Some v"
  shows "CHR '':'' \<notin> set f \<and> CHR ''.'' \<notin> set f"
proof -
  from assms obtain c cs where f: "f = c # cs" by (cases f) (auto simp: Atoi_def)
  define body where "body = (if c = CHR ''-'' \<or> c = CHR ''+'' then cs else f)"
  from assms f obtain n where "parseDigits body 0 = Some n"
    by (auto simp: Atoi_def Let_def body_def split: if_splits option.splits)
  then have "list_all isDigit body" by (rule parseDigits_all_digits)
  then have "CHR '':'' \<notin> set body \<and> CHR ''.'' \<notin> set body"
    by (simp add: digits_no_sep)
  then show ?thesis unfolding body_def f by (auto split: if_splits)
qed

lemma digitChar_digit: "d < 10 \<Longrightarrow> isDigit (digitChar d) \<and> digitVal (digitChar d) = int d"
  by (simp add: digitChar_def isDigit_def digitVal_def)

lemma parseDigits_digitsOf:
  "parseDigits (digitsOf n) a = Some (a * 10 ^ length (digitsOf n) + int n)"
proof (induction n arbitrary: a rule: digitsOf.induct)
  case (1 n)
  show ?case
  proof (cases "n < 10")
    case True
    then show ?thesis
      by (subst (1 2) digitsOf.simps) (simp add: digitChar_digit)
  next
    case False
    have m: "n mod 10 < 10" by simp
    have "int n = int (n div 10) * 10 + int (n mod 10)"
      by (simp add: zmod_int zdiv_int)
    with False 1 [OF False] digitChar_digit [OF m] show ?thesis
      by (subst (1 2) digitsOf.simps) (simp add: parseDigits_append algebra_simps)
  qed
qed

lemma digitsOf_not_Nil: "digitsOf n \<noteq> []"
  by (subst digitsOf.simps) simp

lemma parseDigits_zeros: "parseDigits (replicate k (CHR ''0'') @ ds) 0 = parseDigits ds 0"
  by (induction k) (simp_all add: isDigit_def digitVal_def)

lemma parseDigits_SprintfPadded:
  "0 \<le> i \<Longrightarrow> parseDigits (SprintfPadded w i) 0 = Some i \<and> SprintfPadded w i \<noteq> []"
  by (simp add: SprintfPadded_def zeroPad_def parseDigits_zeros parseDigits_digitsOf
      digitsOf_not_Nil)

lemma SprintfPadded_digits: "0 \<le> i \<Longrightarrow> list_all isDigit (SprintfPadded w i)"
  using parseDigits_SprintfPadded parseDigits_all_digits by blast

lemma commaToDot_digits: "list_all isDigit ds \<Longrightarrow> commaToDot ds = ds"
  using isDigit_separators by (auto simp: commaToDot_def list_all_iff map_idI)

subsection \<open>Trimming only drops bytes\<close>

lemma trimLeading_drop: "\<exists>k. trimLeading encs s = drop k s"
proof (induction encs s rule: trimLeading.induct)
  case (1 encs s)
  show ?case
  proof (cases "leadingWidth encs s = 0")
    case True
    then have "trimLeading encs s = drop 0 s" by (subst trimLeading.simps) simp
    then show ?thesis by blast
  next
    case False
    with 1 obtain k where "trimLeading encs (drop (leadingWidth encs s) s)
        = drop k (drop (leadingWidth encs s) s)" by blast
    with False have "trimLeading encs s = drop (leadingWidth encs s + k) s"
      by (subst trimLeading.simps) (simp add: add.commute)
    then show ?thesis by blast
  qed
qed

lemma set_trimLeading: "set (trimLeading encs s) \<subseteq> set s"
  using trimLeading_drop [of encs s] by (auto dest: in_set_dropD)

lemma set_TrimSpace: "set (TrimSpace s) \<subseteq> set s"
proof -
  have "set (TrimSpace s) \<subseteq> set (rev (trimLeading spaceEncodings s))"
    using set_trimLeading [of "map rev spaceEncodings" "rev (trimLeading spaceEncodings s)"]
    by (simp add: TrimSpace_def)
  also have "\<dots> \<subseteq> set s"
    using set_trimLeading [of spaceEncodings s] by simp
  finally show ?thesis .
qed

subsection \<open>Time values\<close>

lemma parseTime_fields:
  assumes "CHR '':'' \<notin> set hf" "CHR '':'' \<notin> set mf" "CHR '':'' \<notin> set sf" "CHR '':'' \<notin> set msf"
    and "CHR ''.'' \<notin> set sf" "CHR ''.'' \<notin> set msf"
    and "Atoi hf = Some h" "0 \<le> h" "h \<le> 23"
    and "Atoi mf = Some m" "0 \<le> m" "m \<le> 59"
    and "Atoi sf = Some s" "0 \<le> s" "s \<le> 59"
    and "Atoi msf = Some ms"
  shows "parseTime (hf @ '':'' @ mf @ '':'' @ sf @ ''.'' @ msf) =
           (if ms < 0 \<or> ms > 999 then Inl (MillisecondsOutOfRange ms)
            else Inr (h * Hour + m * Minute + s * Second + ms * Millisecond))"
proof -
  have a: "Split (hf @ CHR '':'' # mf @ CHR '':'' # sf @ CHR ''.'' # msf) (CHR '':'')
             = [hf, mf, sf @ CHR ''.'' # msf]"
    using assms(1-4) by (simp add: Split_field Split_no_sep)
  have b: "Split (sf @ CHR ''.'' # msf) (CHR ''.'') = [sf, msf]"
    using assms(5,6) by (simp add: Split_field Split_no_sep)
  show ?thesis
    using assms(7-) by (simp add: parseTime_def a b)
qed

lemma parseTime_Inr_fields:
  assumes "parseTime timeStr = Inr d"
  shows "\<exists>h m s ms. 0 \<le> h \<and> h \<le> 23 \<and> 0 \<le> m \<and> m \<le> 59 \<and> 0 \<le> s \<and> s \<le> 59
           \<and> 0 \<le> ms \<and> ms \<le> 999
           \<and> d = h * Hour + m * Minute + s * Second + ms * Millisecond"
  using assms unfolding parseTime_def
  by (auto split: list.splits option.splits if_splits simp: not_less)

lemma parseTime_Inr_colon:
  assumes "parseTime t = Inr d"
  shows "CHR '':'' \<in> set t"
proof (rule ccontr)
  assume "CHR '':'' \<notin> set t"
  then have "Split t (CHR '':'') = [t]" by (rule Split_no_sep)
  with assms show False by (simp add: parseTime_def)
qed

lemma sdiv_smod_nonneg:
  fixes a b :: int
  assumes "0 \<le> a" "0 < b"
  shows "a sdiv b = a div b" "a smod b = a mod b"
  using assms by (auto simp: signed_divide_int_def signed_modulo_int_def sgn_if)

text \<open>
  The \<open>float64\<close> arithmetic of the formatter: the value of \<open>roundFloat64 n d\<close>
  lies on the same side of every number of its own grid as \<open>n / d\<close>, so the sum of
  the whole units and of a rest that is a millisecond short of a unit stays below the
  next whole number, and the truncation gives the whole units.
\<close>

lemma bitLength_bounds:
  "0 < n \<Longrightarrow> 0 < bitLength n \<and> 2 ^ nat (bitLength n - 1) \<le> n \<and> n < 2 ^ nat (bitLength n)"
proof (induction n rule: bitLength.induct)
  case (1 n)
  show ?case
  proof (cases "n = 1")
    case True
    have "bitLength 0 = 0" by (subst bitLength.simps) simp
    then have "bitLength 1 = 1" by (subst bitLength.simps) simp
    with True show ?thesis by simp
  next
    case False
    with "1.prems" have h: "0 < n div 2" by simp
    have b: "bitLength n = 1 + bitLength (n div 2)"
      using "1.prems" by (subst bitLength.simps) simp
    from "1.IH" h "1.prems" have ih: "0 < bitLength (n div 2)"
      "2 ^ nat (bitLength (n div 2) - 1) \<le> n div 2" "n div 2 < 2 ^ nat (bitLength (n div 2))"
      by simp_all
    from ih(1) have e: "nat (bitLength (n div 2)) = Suc (nat (bitLength (n div 2) - 1))"
      by simp
    have "2 * (n div 2) \<le> n" "n < 2 * (n div 2) + 2" by linarith+
    moreover have "nat (bitLength n - 1) = Suc (nat (bitLength (n div 2) - 1))"
      "nat (bitLength n) = Suc (Suc (nat (bitLength (n div 2) - 1)))"
      using ih(1) by (simp_all add: b)
    ultimately have "2 ^ nat (bitLength n - 1) \<le> n" "n < 2 ^ nat (bitLength n)"
      using ih(2,3) e by simp_all
    then show ?thesis using ih(1) b by simp
  qed
qed

lemma bitLength_powi:
  assumes "0 < n"
  shows "(2 :: real) powi (bitLength n - 1) \<le> real_of_int n"
    and "real_of_int n < 2 powi (bitLength n)"
proof -
  from bitLength_bounds [OF assms] have p: "0 < bitLength n"
    and l: "2 ^ nat (bitLength n - 1) \<le> n" and u: "n < 2 ^ nat (bitLength n)" by simp_all
  from l have "real_of_int (2 ^ nat (bitLength n - 1)) \<le> real_of_int n" by linarith
  with p show "(2 :: real) powi (bitLength n - 1) \<le> real_of_int n"
    by (simp add: power_int_def)
  from u have "real_of_int n < real_of_int (2 ^ nat (bitLength n))" by linarith
  with p show "real_of_int n < 2 powi (bitLength n)"
    by (simp add: power_int_def)
qed

lemma scaled_value:
  assumes "0 < d" "scaled n d e = (a, b)"
  shows "0 < b" and "real_of_int a / real_of_int b = real_of_int n / (real_of_int d * 2 powi e)"
proof -
  show "0 < b" using assms by (auto simp: scaled_def split: if_splits)
  show "real_of_int a / real_of_int b = real_of_int n / (real_of_int d * 2 powi e)"
  proof (cases "0 \<le> e")
    case True
    with assms show ?thesis by (auto simp: scaled_def power_int_def)
  next
    case False
    with assms have "a = n * 2 ^ nat (- e)" "b = d" by (auto simp: scaled_def)
    moreover from False have "(2 :: real) powi e = 1 / 2 ^ nat (- e)"
      by (simp add: power_int_def power_one_over)
    ultimately show ?thesis by simp
  qed
qed

lemma roundHalfEven_le:
  assumes "0 < q" "p \<le> J * q"
  shows "roundHalfEven p q \<le> J"
proof (cases "p = J * q")
  case True
  with assms(1) show ?thesis by (simp add: roundHalfEven_def)
next
  case False
  with assms have "p < J * q" by simp
  moreover have "0 \<le> p mod q" using assms(1) by simp
  ultimately have "q * (p div q) < J * q"
    using mult_div_mod_eq [of q p] by linarith
  with assms(1) have "p div q < J" by (simp add: mult.commute [of J] mult_less_cancel_left_pos)
  then show ?thesis by (simp add: roundHalfEven_def)
qed

lemma roundHalfEven_ge:
  assumes "0 < q" "J * q \<le> p"
  shows "J \<le> roundHalfEven p q"
proof -
  have "p mod q < q" using assms(1) by simp
  then have "J * q - q < q * (p div q)"
    using mult_div_mod_eq [of q p] assms(2) by linarith
  then have "q * (J - 1) < q * (p div q)" by (simp add: algebra_simps)
  with assms(1) have "J - 1 < p div q" by (simp add: mult_less_cancel_left_pos)
  then have "J \<le> p div q" by simp
  then show ?thesis by (simp add: roundHalfEven_def)
qed

lemma roundFloat64_cases:
  assumes "n \<noteq> 0" "roundFloat64 n d = (m, e)"
  shows "\<exists>a b p q. scaled \<bar>n\<bar> d (bitLength \<bar>n\<bar> - bitLength d - 53) = (a, b)
    \<and> e = (if a < b * 2 ^ 53 then bitLength \<bar>n\<bar> - bitLength d - 53
          else bitLength \<bar>n\<bar> - bitLength d - 53 + 1)
    \<and> scaled n d e = (p, q) \<and> m = roundHalfEven p q"
  using assms by (auto simp: roundFloat64_def Let_def split: prod.splits if_splits)

lemma powi_split:
  "e \<le> E \<Longrightarrow> (2 :: real) powi E = 2 ^ nat (E - e) * 2 powi e"
proof -
  assume "e \<le> E"
  have "(2 :: real) powi E = 2 powi ((E - e) + e)" by simp
  also have "\<dots> = 2 powi (E - e) * 2 powi e" by (rule power_int_add) simp
  also have "(2 :: real) powi (E - e) = 2 ^ nat (E - e)"
    using \<open>e \<le> E\<close> by (simp add: power_int_def)
  finally show ?thesis .
qed

lemma powi_less_imp: "(2 :: real) powi a < 2 powi b \<Longrightarrow> a < b"
proof (rule ccontr)
  assume l: "(2 :: real) powi a < 2 powi b" and "\<not> a < b"
  then have "b \<le> a" by simp
  then have "(2 :: real) powi b \<le> 2 powi a" by (rule power_int_increasing) simp
  with l show False by simp
qed

lemma roundFloat64_exponent:
  assumes "0 < n" "0 < d" "roundFloat64 n d = (m, e)"
    and "real_of_int n / real_of_int d < 2 powi P"
  shows "e \<le> P - 53"
proof -
  define e1 where "e1 = bitLength \<bar>n\<bar> - bitLength d - 53"
  from assms(1) have "n \<noteq> 0" by simp
  from roundFloat64_cases [OF this assms(3)]
  obtain a b where sc: "scaled \<bar>n\<bar> d e1 = (a, b)"
    and e: "e = (if a < b * 2 ^ 53 then e1 else e1 + 1)"
    unfolding e1_def by blast
  from assms(1) have abs: "\<bar>n\<bar> = n" by simp
  have d0: "0 < real_of_int d" using assms(2) by simp
  from assms(4) d0 have nd: "real_of_int n < real_of_int d * 2 powi P"
    by (simp add: pos_divide_less_eq mult.commute)
  show ?thesis
  proof (cases "a < b * 2 ^ 53")
    case True
    have "(2 :: real) powi (bitLength n - 1) \<le> real_of_int n"
      using assms(1) by (rule bitLength_powi)
    also note nd
    also have "real_of_int d * 2 powi P < 2 powi (bitLength d) * 2 powi P"
      using bitLength_powi(2) [OF assms(2)] by simp
    also have "\<dots> = 2 powi (bitLength d + P)" by (simp add: power_int_add)
    finally have "bitLength n - 1 < bitLength d + P"
      by (rule powi_less_imp)
    with True e abs show ?thesis by (simp add: e1_def)
  next
    case False
    from scaled_value [OF assms(2) sc] have b0: "0 < b"
      and v: "real_of_int a / real_of_int b = real_of_int n / (real_of_int d * 2 powi e1)"
      by (simp_all add: abs)
    from False have "real_of_int (b * 2 ^ 53) \<le> real_of_int a" by linarith
    with b0 have "(2 :: real) ^ 53 \<le> real_of_int a / real_of_int b"
      by (simp add: pos_le_divide_eq mult.commute)
    with v have "(2 :: real) ^ 53 \<le> real_of_int n / (real_of_int d * 2 powi e1)" by simp
    then have "(2 :: real) ^ 53 * (real_of_int d * 2 powi e1) \<le> real_of_int n"
      using d0 by (simp add: pos_le_divide_eq)
    moreover have "(2 :: real) powi (e1 + 53) = 2 powi e1 * 2 ^ 53"
      by (simp add: power_int_add)
    ultimately have "real_of_int d * 2 powi (e1 + 53) \<le> real_of_int n"
      by (simp add: mult_ac)
    with nd have "real_of_int d * 2 powi (e1 + 53) < real_of_int d * 2 powi P" by linarith
    with d0 have "(2 :: real) powi (e1 + 53) < 2 powi P" by simp
    then have "e1 + 53 < P" by (rule powi_less_imp)
    with False e show ?thesis by simp
  qed
qed

lemma roundFloat64_le:
  assumes "n \<noteq> 0" "0 < d" "roundFloat64 n d = (m, e)" "e \<le> E"
    and "real_of_int n / real_of_int d \<le> real_of_int J * 2 powi E"
  shows "real_of_int m * 2 powi e \<le> real_of_int J * 2 powi E"
proof -
  from roundFloat64_cases [OF assms(1,3)]
  obtain p q where sc: "scaled n d e = (p, q)" and m: "m = roundHalfEven p q"
    by blast
  from scaled_value [OF assms(2) sc] have q0: "0 < q"
    and v: "real_of_int p / real_of_int q = real_of_int n / (real_of_int d * 2 powi e)"
    by simp_all
  have pe: "(0 :: real) < 2 powi e" by simp
  have split: "(2 :: real) powi E = 2 ^ nat (E - e) * 2 powi e"
    using assms(4) by (rule powi_split)
  have "real_of_int p / real_of_int q = (real_of_int n / real_of_int d) / 2 powi e"
    by (simp add: v)
  also have "\<dots> \<le> (real_of_int J * 2 powi E) / 2 powi e"
    using assms(5) by (rule divide_right_mono) simp
  also have "\<dots> = real_of_int (J * 2 ^ nat (E - e))"
    by (simp add: split)
  finally have "real_of_int p \<le> real_of_int (J * 2 ^ nat (E - e)) * real_of_int q"
    using q0 by (simp add: pos_divide_le_eq)
  then have "p \<le> J * 2 ^ nat (E - e) * q"
    by (metis of_int_le_iff of_int_mult)
  with q0 have "m \<le> J * 2 ^ nat (E - e)" unfolding m by (rule roundHalfEven_le)
  then have "real_of_int m \<le> real_of_int (J * 2 ^ nat (E - e))" by linarith
  then have "real_of_int m * 2 powi e \<le> real_of_int (J * 2 ^ nat (E - e)) * 2 powi e"
    using pe by (simp add: mult_right_mono)
  then show ?thesis by (simp add: split mult.assoc)
qed

lemma roundFloat64_ge:
  assumes "n \<noteq> 0" "0 < d" "roundFloat64 n d = (m, e)" "e \<le> E"
    and "real_of_int J * 2 powi E \<le> real_of_int n / real_of_int d"
  shows "real_of_int J * 2 powi E \<le> real_of_int m * 2 powi e"
proof -
  from roundFloat64_cases [OF assms(1,3)]
  obtain p q where sc: "scaled n d e = (p, q)" and m: "m = roundHalfEven p q"
    by blast
  from scaled_value [OF assms(2) sc] have q0: "0 < q"
    and v: "real_of_int p / real_of_int q = real_of_int n / (real_of_int d * 2 powi e)"
    by simp_all
  have pe: "(0 :: real) < 2 powi e" by simp
  have split: "(2 :: real) powi E = 2 ^ nat (E - e) * 2 powi e"
    using assms(4) by (rule powi_split)
  have "real_of_int (J * 2 ^ nat (E - e)) = (real_of_int J * 2 powi E) / 2 powi e"
    by (simp add: split)
  also have "\<dots> \<le> (real_of_int n / real_of_int d) / 2 powi e"
    using assms(5) by (rule divide_right_mono) simp
  also have "\<dots> = real_of_int p / real_of_int q"
    by (simp add: v)
  finally have "real_of_int (J * 2 ^ nat (E - e)) * real_of_int q \<le> real_of_int p"
    using q0 by (simp add: pos_le_divide_eq)
  then have "J * 2 ^ nat (E - e) * q \<le> p"
    by (metis of_int_le_iff of_int_mult)
  with q0 have "J * 2 ^ nat (E - e) \<le> m" unfolding m by (rule roundHalfEven_ge)
  then have "real_of_int (J * 2 ^ nat (E - e)) \<le> real_of_int m" by linarith
  then have "real_of_int (J * 2 ^ nat (E - e)) * 2 powi e \<le> real_of_int m * 2 powi e"
    using pe by (simp add: mult_right_mono)
  then show ?thesis by (simp add: split mult.assoc)
qed

lemma truncFloat64_between:
  assumes "0 \<le> q" "real_of_int q \<le> real_of_int m * 2 powi e"
    and "real_of_int m * 2 powi e < real_of_int q + 1"
  shows "truncFloat64 (m, e) = q"
proof (cases "0 \<le> e")
  case True
  then have "(2 :: real) powi e = real_of_int (2 ^ nat e)" by (simp add: power_int_def)
  with assms(2,3) have "real_of_int q \<le> real_of_int (m * 2 ^ nat e)"
    "real_of_int (m * 2 ^ nat e) < real_of_int (q + 1)" by simp_all
  then have "q \<le> m * 2 ^ nat e" "m * 2 ^ nat e < q + 1" by linarith+
  with True show ?thesis by (simp add: truncFloat64_def)
next
  case False
  define k where "k = nat (- e)"
  have k0: "(0 :: real) < 2 ^ k" by simp
  from False have p: "(2 :: real) powi e = 1 / 2 ^ k"
    by (simp add: power_int_def power_one_over k_def)
  from assms(2,3) have "real_of_int q \<le> real_of_int m / 2 ^ k"
    "real_of_int m / 2 ^ k < real_of_int q + 1" by (simp_all add: p)
  with k0 have "real_of_int q * 2 ^ k \<le> real_of_int m"
    "real_of_int m < (real_of_int q + 1) * 2 ^ k"
    by (simp_all add: pos_le_divide_eq pos_divide_less_eq)
  then have "real_of_int (q * 2 ^ k) \<le> real_of_int m"
    "real_of_int m < real_of_int ((q + 1) * 2 ^ k)" by simp_all
  then have b: "q * 2 ^ k \<le> m" "m < (q + 1) * 2 ^ k" by linarith+
  have "0 \<le> q * 2 ^ k" using assms(1) by simp
  with b(1) have m0: "0 \<le> m" by linarith
  have "m div 2 ^ k = q"
    by (rule int_div_pos_eq [where r = "m - q * 2 ^ k"]) (use b in \<open>simp_all add: algebra_simps\<close>)
  with m0 False show ?thesis
    by (simp add: truncFloat64_def k_def sdiv_smod_nonneg)
qed

lemma addFloat64_value:
  "\<exists>n d. addFloat64 w (m, e) = roundFloat64 n d \<and> 0 < d
     \<and> real_of_int n / real_of_int d = real_of_int w + real_of_int m * 2 powi e"
proof (cases "0 \<le> e")
  case True
  then have "addFloat64 w (m, e) = roundFloat64 (w + m * 2 ^ nat e) 1"
    by (simp add: addFloat64_def)
  moreover from True
  have "real_of_int (w + m * 2 ^ nat e) / real_of_int 1 = real_of_int w + real_of_int m * 2 powi e"
    by (simp add: power_int_def)
  ultimately show ?thesis by (metis zero_less_one)
next
  case False
  define k where "k = nat (- e)"
  from False have "addFloat64 w (m, e) = roundFloat64 (w * 2 ^ k + m) (2 ^ k)"
    by (simp add: addFloat64_def k_def)
  moreover from False have p: "(2 :: real) powi e = 1 / 2 ^ k"
    by (simp add: power_int_def power_one_over k_def)
  have "real_of_int (w * 2 ^ k + m) / real_of_int (2 ^ k)
      = real_of_int w + real_of_int m * 2 powi e"
    by (simp add: p add_divide_distrib)
  moreover have "(0 :: int) < 2 ^ k" by simp
  ultimately show ?thesis by blast
qed

lemma units_exact:
  assumes "0 \<le> q" "q + 1 \<le> 2 ^ 31" "0 \<le> r" "0 < U" "r * 2 ^ 22 \<le> U * (2 ^ 22 - 1)"
  shows "truncFloat64 (addFloat64 q (roundFloat64 r U)) = q"
proof -
  define c where "c = (2 :: real) powi (- 22)"
  have c: "c = 1 / 4194304" by (simp add: c_def power_int_def power_one_over)
  obtain m1 e1 where f1: "roundFloat64 r U = (m1, e1)" by (cases "roundFloat64 r U")
  have U0: "0 < real_of_int U" using assms(4) by simp
  have frac0: "real_of_int r / real_of_int U \<le> 4194303 / 4194304"
  proof -
    from assms(5) have "real_of_int (r * 4194304) \<le> real_of_int (U * 4194303)" by simp
    then have "real_of_int r * 4194304 \<le> real_of_int U * 4194303" by simp
    then have "real_of_int r \<le> real_of_int U * (4194303 / 4194304)" by simp
    then show ?thesis
      using U0 by (simp add: pos_divide_le_eq mult.commute)
  qed
  have frac: "real_of_int r / real_of_int U \<le> real_of_int 4194303 * c"
    using frac0 by (simp add: c)
  have v1: "0 \<le> real_of_int m1 * 2 powi e1 \<and> real_of_int m1 * 2 powi e1 \<le> real_of_int 4194303 * c"
  proof (cases "r = 0")
    case True
    with f1 show ?thesis by (simp add: roundFloat64_def c)
  next
    case False
    with assms(3) have r0: "0 < r" by simp
    note frac0
    also have "(4194303 :: real) / 4194304 < 1" by simp
    finally have "real_of_int r / real_of_int U < 1" .
    then have "real_of_int r / real_of_int U < 2 powi 0" by simp
    from roundFloat64_exponent [OF r0 assms(4) f1 this] have e: "e1 \<le> - 53" by simp
    then have e22: "e1 \<le> - 22" and e0: "e1 \<le> 0" by simp_all
    have "real_of_int 0 * 2 powi 0 \<le> real_of_int r / real_of_int U"
      using assms(3) U0 by simp
    from roundFloat64_ge [OF False assms(4) f1 e0 this]
    have "0 \<le> real_of_int m1 * 2 powi e1" by simp
    moreover from roundFloat64_le [OF False assms(4) f1 e22 frac [unfolded c_def]]
    have "real_of_int m1 * 2 powi e1 \<le> real_of_int 4194303 * c" by (simp only: c_def)
    ultimately show ?thesis by simp
  qed
  from addFloat64_value [of q m1 e1] obtain n d
    where a: "addFloat64 q (m1, e1) = roundFloat64 n d" and d0: "0 < d"
      and val: "real_of_int n / real_of_int d = real_of_int q + real_of_int m1 * 2 powi e1"
    by blast
  obtain m2 e2 where f2: "roundFloat64 n d = (m2, e2)" by (cases "roundFloat64 n d")
  have lo: "real_of_int q * 2 powi 0 \<le> real_of_int n / real_of_int d"
    unfolding val using v1 by simp
  have hi: "real_of_int n / real_of_int d \<le> real_of_int ((q + 1) * 4194304 - 1) * c"
    unfolding val using v1 by (simp add: c)
  have lt: "real_of_int ((q + 1) * 4194304 - 1) * c < real_of_int q + 1"
    by (simp add: c)
  show ?thesis
  proof (cases "n = 0")
    case True
    with val d0 v1 have "real_of_int q \<le> 0" by simp
    with assms(1) have "q = 0" by simp
    with True f2 a f1 show ?thesis by (simp add: roundFloat64_def truncFloat64_def)
  next
    case False
    have "0 \<le> real_of_int n / real_of_int d" using lo assms(1) by simp
    with d0 have "0 \<le> real_of_int n" by (simp add: zero_le_divide_iff)
    with False have n0: "0 < n" by simp
    have "real_of_int n / real_of_int d < real_of_int (q + 1)"
      using hi lt by simp
    also have "\<dots> \<le> real_of_int (2 ^ 31)" using assms(2) by linarith
    also have "\<dots> = 2 powi 31" by simp
    finally have "e2 \<le> 31 - 53" by (rule roundFloat64_exponent [OF n0 d0 f2])
    then have e22: "e2 \<le> - 22" and e0: "e2 \<le> 0" by simp_all
    from roundFloat64_ge [OF False d0 f2 e0 lo]
    have "real_of_int q \<le> real_of_int m2 * 2 powi e2" by simp
    moreover from roundFloat64_le [OF False d0 f2 e22 hi [unfolded c_def]] lt
    have "real_of_int m2 * 2 powi e2 < real_of_int q + 1" by (simp only: c_def)
    ultimately have "truncFloat64 (m2, e2) = q"
      by (rule truncFloat64_between [OF assms(1)])
    then show ?thesis by (simp add: f1 a f2)
  qed
qed

lemma formatSRTTime_fields:
  assumes "0 \<le> h" "h \<le> 23" "0 \<le> m" "m \<le> 59" "0 \<le> s" "s \<le> 59" "0 \<le> ms" "ms \<le> 999"
  shows "formatSRTTime (h * Hour + m * Minute + s * Second + ms * Millisecond) =
           SprintfPadded 2 h @ '':'' @ SprintfPadded 2 m @ '':'' @ SprintfPadded 2 s
           @ '','' @ SprintfPadded 3 ms"
proof -
  define d where "d = h * Hour + m * Minute + s * Second + ms * Millisecond"
  have d0: "0 \<le> d" using assms by (simp add: d_def Hour_def Minute_def Second_def Millisecond_def)
  have dh: "d div Hour = h"
    by (rule int_div_pos_eq [where r = "m * Minute + s * Second + ms * Millisecond"])
       (use assms in \<open>simp_all add: d_def Hour_def Minute_def Second_def Millisecond_def\<close>)
  have dm: "d div Minute = h * 60 + m"
    by (rule int_div_pos_eq [where r = "s * Second + ms * Millisecond"])
       (use assms in \<open>simp_all add: d_def Hour_def Minute_def Second_def Millisecond_def\<close>)
  have ds: "d div Second = (h * 60 + m) * 60 + s"
    by (rule int_div_pos_eq [where r = "ms * Millisecond"])
       (use assms in \<open>simp_all add: d_def Hour_def Minute_def Second_def Millisecond_def\<close>)
  have dms: "d div 1000000 = ((h * 60 + m) * 60 + s) * 1000 + ms"
    by (rule int_div_pos_eq [where r = 0])
       (use assms in \<open>simp_all add: d_def Hour_def Minute_def Second_def Millisecond_def\<close>)
  have mh: "d mod Hour = m * Minute + s * Second + ms * Millisecond"
    by (rule int_mod_pos_eq [where q = h])
       (use assms in \<open>simp_all add: d_def Hour_def Minute_def Second_def Millisecond_def\<close>)
  have mm: "d mod Minute = s * Second + ms * Millisecond"
    by (rule int_mod_pos_eq [where q = "h * 60 + m"])
       (use assms in \<open>simp_all add: d_def Hour_def Minute_def Second_def Millisecond_def\<close>)
  have ms: "d mod Second = ms * Millisecond"
    by (rule int_mod_pos_eq [where q = "(h * 60 + m) * 60 + s"])
       (use assms in \<open>simp_all add: d_def Hour_def Minute_def Second_def Millisecond_def\<close>)
  have q: "d sdiv Hour = h" "d sdiv Minute = h * 60 + m" "d sdiv Second = (h * 60 + m) * 60 + s"
    "d sdiv 1000000 = ((h * 60 + m) * 60 + s) * 1000 + ms"
    using d0 dh dm ds dms by (simp_all add: sdiv_smod_nonneg Hour_def Minute_def Second_def)
  have rest: "d smod Hour = m * Minute + s * Second + ms * Millisecond"
    "d smod Minute = s * Second + ms * Millisecond" "d smod Second = ms * Millisecond"
    using d0 mh mm ms by (simp_all add: sdiv_smod_nonneg Hour_def Minute_def Second_def)
  have uh: "truncFloat64 (Hours d) = h"
    unfolding Hours_def q rest
    by (rule units_exact)
       (use assms in \<open>simp_all add: Hour_def Minute_def Second_def Millisecond_def\<close>)
  have um: "truncFloat64 (Minutes d) = h * 60 + m"
    unfolding Minutes_def q rest
    by (rule units_exact)
       (use assms in \<open>simp_all add: Hour_def Minute_def Second_def Millisecond_def\<close>)
  have us: "truncFloat64 (Seconds d) = (h * 60 + m) * 60 + s"
    unfolding Seconds_def q rest
    by (rule units_exact)
       (use assms in \<open>simp_all add: Hour_def Minute_def Second_def Millisecond_def\<close>)
  have "(h * 60 + m) mod 60 = m"
    by (rule int_mod_pos_eq [where q = h]) (use assms in simp_all)
  moreover have "((h * 60 + m) * 60 + s) mod 60 = s"
    by (rule int_mod_pos_eq [where q = "h * 60 + m"]) (use assms in simp_all)
  moreover have "(((h * 60 + m) * 60 + s) * 1000 + ms) mod 1000 = ms"
    by (rule int_mod_pos_eq [where q = "(h * 60 + m) * 60 + s"]) (use assms in simp_all)
  moreover have "0 \<le> h * 60 + m" "0 \<le> (h * 60 + m) * 60 + s"
    "0 \<le> ((h * 60 + m) * 60 + s) * 1000 + ms"
    using assms by simp_all
  ultimately have r: "(h * 60 + m) smod 60 = m" "((h * 60 + m) * 60 + s) smod 60 = s"
    "(((h * 60 + m) * 60 + s) * 1000 + ms) smod 1000 = ms"
    by (simp_all only: sdiv_smod_nonneg zero_less_numeral)
  show ?thesis
    unfolding d_def [symmetric] formatSRTTime_def Let_def uh um us q r by simp
qed

lemma roundtrip_fields:
  assumes "0 \<le> h" "h \<le> 23" "0 \<le> m" "m \<le> 59" "0 \<le> s" "s \<le> 59" "0 \<le> ms" "ms \<le> 999"
  shows "parseTime (commaToDot (formatSRTTime (h * Hour + m * Minute + s * Second + ms * Millisecond)))
           = Inr (h * Hour + m * Minute + s * Second + ms * Millisecond)"
proof -
  let ?H = "SprintfPadded 2 h" and ?M = "SprintfPadded 2 m" and ?S = "SprintfPadded 2 s"
    and ?MS = "SprintfPadded 3 ms"
  have dig: "list_all isDigit ?H" "list_all isDigit ?M" "list_all isDigit ?S" "list_all isDigit ?MS"
    using assms by (simp_all add: SprintfPadded_digits)
  have c: "commaToDot (formatSRTTime (h * Hour + m * Minute + s * Second + ms * Millisecond))
             = ?H @ '':'' @ ?M @ '':'' @ ?S @ ''.'' @ ?MS"
    using assms dig by (simp add: formatSRTTime_fields) (simp add: commaToDot_def commaToDot_digits [unfolded commaToDot_def])
  have at: "Atoi ?H = Some h" "Atoi ?M = Some m" "Atoi ?S = Some s" "Atoi ?MS = Some ms"
    using assms by (simp_all add: Atoi_digits parseDigits_SprintfPadded)
  have ns: "CHR '':'' \<notin> set ?H" "CHR '':'' \<notin> set ?M" "CHR '':'' \<notin> set ?S" "CHR '':'' \<notin> set ?MS"
    "CHR ''.'' \<notin> set ?S" "CHR ''.'' \<notin> set ?MS"
    using dig by (simp_all add: digits_no_sep)
  show ?thesis
    unfolding c using parseTime_fields [OF ns at(1) assms(1,2) at(2) assms(3,4) at(3) assms(5,6) at(4)] assms
    by simp
qed

lemma roundtrip_time:
  assumes "parseTime timeStr = Inr d"
  shows "parseTime (commaToDot (formatSRTTime d)) = Inr d"
  using parseTime_Inr_fields [OF assms] roundtrip_fields by blast

lemma parseTimestamps_Inr:
  assumes "parseTimestamps l = Inr (startTime, endTime)"
  shows "\<exists>part0 part1. Split l (CHR '','') = [part0, part1] \<and>
           parseTime (TrimSpace part0) = Inr startTime \<and>
           parseTime (TrimSpace part1) = Inr endTime"
  using assms unfolding parseTimestamps_def
  by (auto split: list.splits sum.splits)

lemma parseTimestamps_Inr_isTimestampLine:
  assumes "parseTimestamps l = Inr x"
  shows "isTimestampLine l"
proof -
  have c: "CHR '','' \<in> set l"
  proof (rule ccontr)
    assume "CHR '','' \<notin> set l"
    then have "Split l (CHR '','') = [l]" by (rule Split_no_sep)
    with assms show False by (simp add: parseTimestamps_def)
  qed
  obtain st en where "x = (st, en)" by (cases x)
  with assms obtain p0 p1 where sp: "Split l (CHR '','') = [p0, p1]"
    and t: "parseTime (TrimSpace p0) = Inr st"
    using parseTimestamps_Inr by blast
  from t have "CHR '':'' \<in> set (TrimSpace p0)" by (rule parseTime_Inr_colon)
  then have "CHR '':'' \<in> set p0" using set_TrimSpace by blast
  moreover have "set p0 \<subseteq> set l" using sp set_Split [of p0 l "CHR '',''"] by simp
  ultimately show ?thesis using c by (auto simp: isTimestampLine_def ContainsRune_def)
qed

subsection \<open>Blocks and the scan\<close>

lemma textLoop_takeWhile:
  "textLoop lines k acc =
     (acc @ takeWhile (\<lambda>l. l \<noteq> []) (drop k lines),
      k + length (takeWhile (\<lambda>l. l \<noteq> []) (drop k lines)))"
proof (induction lines k acc rule: textLoop.induct)
  case (1 lines k acc)
  show ?case
  proof (cases "k < length lines \<and> lines ! k \<noteq> []")
    case True
    then have d: "drop k lines = lines ! k # drop (Suc k) lines"
      by (simp add: Cons_nth_drop_Suc)
    from True 1 show ?thesis
      by (subst textLoop.simps) (simp add: d)
  next
    case False
    then have "takeWhile (\<lambda>l. l \<noteq> []) (drop k lines) = []"
      by (cases "k < length lines") (simp_all add: Cons_nth_drop_Suc [symmetric])
    with False show ?thesis
      by (subst textLoop.simps) auto
  qed
qed

lemma parseSubtitleBlock_Inr:
  "parseSubtitleBlock lines i = Inr (subtitle, nextIndex) \<longleftrightarrow>
     i < length lines \<and>
     parseTimestamps (lines ! i) = Inr (StartTime subtitle, EndTime subtitle) \<and>
     Text subtitle = Join (takeWhile (\<lambda>l. l \<noteq> []) (drop (Suc i) lines)) [CHR 0x0A] \<and>
     nextIndex = Suc i + length (takeWhile (\<lambda>l. l \<noteq> []) (drop (Suc i) lines))"
  by (cases subtitle) (auto simp: parseSubtitleBlock_def textLoop_takeWhile split: sum.splits)

lemma parseSubtitleBlock_Inl:
  "i < length lines \<Longrightarrow>
   parseSubtitleBlock lines i = Inl err \<longleftrightarrow>
     (\<exists>e. parseTimestamps (lines ! i) = Inl e \<and> err = FailedTimestamps e)"
  by (auto simp: parseSubtitleBlock_def textLoop_takeWhile split: sum.splits)

lemma parseSubtitleBlock_eq:
  "parseSubtitleBlock lines i =
     (if length lines \<le> i then Inl StartIndexOutOfBounds
      else (case parseTimestamps (lines ! i) of
              Inl err \<Rightarrow> Inl (FailedTimestamps err)
            | Inr (startTime, endTime) \<Rightarrow>
                Inr (\<lparr>StartTime = startTime, EndTime = endTime,
                      Text = Join (takeWhile (\<lambda>l. l \<noteq> []) (drop (Suc i) lines)) [CHR 0x0A]\<rparr>,
                     Suc i + length (takeWhile (\<lambda>l. l \<noteq> []) (drop (Suc i) lines)))))"
  by (simp add: parseSubtitleBlock_def textLoop_takeWhile split: sum.splits)

lemma isTimestampLine_not_Nil: "isTimestampLine l \<Longrightarrow> l \<noteq> []"
  by (auto simp: isTimestampLine_def ContainsRune_def)

lemma scanLoop_end: "\<not> i < length lines \<Longrightarrow> scanLoop lines i acc = Inr acc"
  by (subst scanLoop.simps) simp

lemma scanLoop_blank:
  "i < length lines \<Longrightarrow> lines ! i = [] \<Longrightarrow> scanLoop lines i acc = scanLoop lines (Suc i) acc"
  by (subst scanLoop.simps) simp

lemma scanLoop_stray:
  "i < length lines \<Longrightarrow> \<not> isTimestampLine (lines ! i) \<Longrightarrow>
   scanLoop lines i acc = scanLoop lines (Suc i) acc"
  by (subst scanLoop.simps) simp

lemma scanLoop_block_error:
  "i < length lines \<Longrightarrow> isTimestampLine (lines ! i) \<Longrightarrow> parseTimestamps (lines ! i) = Inl e \<Longrightarrow>
   scanLoop lines i acc = Inl (FailedSubtitleBlock (FailedTimestamps e))"
  by (subst scanLoop.simps) (simp add: isTimestampLine_not_Nil parseSubtitleBlock_def)

lemma scanLoop_block:
  assumes "i < length lines" "isTimestampLine (lines ! i)"
    and "parseSubtitleBlock lines i = Inr (subtitle, nextIndex)"
  shows "scanLoop lines i acc = scanLoop lines nextIndex (acc @ [subtitle])"
proof -
  from assms(3) have "nextIndex - 1 + 1 = nextIndex"
    by (simp add: parseSubtitleBlock_Inr)
  with assms show ?thesis
    by (subst scanLoop.simps) (simp add: isTimestampLine_not_Nil)
qed

lemma scanLoop_member:
  "scanLoop lines i acc = Inr subtitles \<Longrightarrow> subtitle \<in> set subtitles \<Longrightarrow>
   subtitle \<in> set acc \<or>
   (\<exists>k n. i \<le> k \<and> k < length lines \<and> isTimestampLine (lines ! k) \<and>
          parseSubtitleBlock lines k = Inr (subtitle, n))"
proof (induction lines i acc rule: scanLoop.induct)
  case (1 lines i acc)
  show ?case
  proof (cases "i < length lines")
    case False
    with "1.prems" show ?thesis by (simp add: scanLoop_end)
  next
    case lt: True
    show ?thesis
    proof (cases "lines ! i = []")
      case True
      with lt "1.prems" "1.IH"(1) show ?thesis
        by (fastforce simp: scanLoop_blank)
    next
      case ne: False
      show ?thesis
      proof (cases "isTimestampLine (lines ! i)")
        case False
        with lt ne "1.prems" "1.IH"(3) show ?thesis
          by (fastforce simp: scanLoop_stray)
      next
        case ts: True
        show ?thesis
        proof (cases "parseSubtitleBlock lines i")
          case (Inl err)
          with lt ne ts "1.prems" show ?thesis
            by (subst (asm) scanLoop.simps) simp
        next
          case (Inr x2)
          obtain s n where x2: "x2 = (s, n)" by (cases x2)
          with Inr have blk: "parseSubtitleBlock lines i = Inr (s, n)" by simp
          then have n: "n - 1 + 1 = n" by (simp add: parseSubtitleBlock_Inr)
          from "1.prems"(1) lt ts blk have "scanLoop lines n (acc @ [s]) = Inr subtitles"
            by (simp add: scanLoop_block)
          with "1.IH"(2) [OF lt ne ts Inr x2 [symmetric]] n "1.prems"(2)
          have "subtitle \<in> set (acc @ [s]) \<or>
            (\<exists>k m. n \<le> k \<and> k < length lines \<and> isTimestampLine (lines ! k) \<and>
               parseSubtitleBlock lines k = Inr (subtitle, m))" by simp
          moreover have "i \<le> n" using blk by (simp add: parseSubtitleBlock_Inr)
          ultimately show ?thesis using lt ts blk by auto
        qed
      qed
    qed
  qed
qed

lemma scanLoop_acc:
  "scanLoop lines i acc = Inr subtitles \<Longrightarrow> set acc \<subseteq> set subtitles"
proof (induction lines i acc rule: scanLoop.induct)
  case (1 lines i acc)
  show ?case
  proof (cases "i < length lines")
    case False
    with "1.prems" show ?thesis by (simp add: scanLoop_end)
  next
    case lt: True
    show ?thesis
    proof (cases "lines ! i = []")
      case True
      with lt "1.prems" "1.IH"(1) show ?thesis
        by (simp add: scanLoop_blank)
    next
      case ne: False
      show ?thesis
      proof (cases "isTimestampLine (lines ! i)")
        case False
        with lt ne "1.prems" "1.IH"(3) show ?thesis
          by (simp add: scanLoop_stray)
      next
        case ts: True
        show ?thesis
        proof (cases "parseSubtitleBlock lines i")
          case (Inl err)
          with lt ne ts "1.prems" show ?thesis
            by (subst (asm) scanLoop.simps) simp
        next
          case (Inr x2)
          obtain s n where x2: "x2 = (s, n)" by (cases x2)
          with Inr have blk: "parseSubtitleBlock lines i = Inr (s, n)" by simp
          then have n: "n - 1 + 1 = n" by (simp add: parseSubtitleBlock_Inr)
          from "1.prems"(1) lt ts blk have "scanLoop lines n (acc @ [s]) = Inr subtitles"
            by (simp add: scanLoop_block)
          with "1.IH"(2) [OF lt ne ts Inr x2 [symmetric]] n
          show ?thesis by simp
        qed
      qed
    qed
  qed
qed

lemma scanLoop_no_timestamps:
  "list_all (\<lambda>l. \<not> isTimestampLine l) lines \<Longrightarrow> scanLoop lines i acc = Inr acc"
proof (induction lines i acc rule: scanLoop.induct)
  case (1 lines i acc)
  show ?case
  proof (cases "i < length lines")
    case False
    then show ?thesis by (simp add: scanLoop_end)
  next
    case True
    with "1.prems" have n: "\<not> isTimestampLine (lines ! i)" by (simp add: list_all_length)
    with True have "scanLoop lines i acc = scanLoop lines (Suc i) acc" by (rule scanLoop_stray)
    moreover have "scanLoop lines (Suc i) acc = Inr acc"
    proof (cases "lines ! i = []")
      case True
      with \<open>i < length lines\<close> "1.IH"(1) "1.prems" show ?thesis by simp
    next
      case False
      with \<open>i < length lines\<close> n "1.IH"(3) "1.prems" show ?thesis by simp
    qed
    ultimately show ?thesis by simp
  qed
qed

lemma scanLoop_suffix:
  "length xs = length ys \<Longrightarrow> drop i xs = drop i ys \<Longrightarrow> scanLoop xs i acc = scanLoop ys i acc"
proof (induction xs i acc rule: scanLoop.induct)
  case (1 xs i acc)
  show ?case
  proof (cases "i < length xs")
    case False
    with "1.prems" show ?thesis by (simp add: scanLoop_end)
  next
    case lt: True
    with "1.prems" have lty: "i < length ys" by simp
    from "1.prems"(2) lt lty have nth: "xs ! i = ys ! i"
      by (metis Cons_nth_drop_Suc list.inject)
    from "1.prems"(2) have suc: "drop (Suc i) xs = drop (Suc i) ys"
      by (metis drop_Suc tl_drop)
    show ?thesis
    proof (cases "xs ! i = []")
      case True
      with lt lty nth "1.IH"(1) "1.prems"(1) suc show ?thesis
        by (simp add: scanLoop_blank)
    next
      case ne: False
      show ?thesis
      proof (cases "isTimestampLine (xs ! i)")
        case False
        with lt lty ne nth "1.IH"(3) "1.prems"(1) suc show ?thesis
          by (simp add: scanLoop_stray)
      next
        case ts: True
        have same: "parseSubtitleBlock xs i = parseSubtitleBlock ys i"
          unfolding parseSubtitleBlock_eq nth suc "1.prems"(1) by (rule refl)
        show ?thesis
        proof (cases "parseSubtitleBlock xs i")
          case (Inl err)
          with lt obtain e where e: "parseTimestamps (xs ! i) = Inl e"
            by (auto simp: parseSubtitleBlock_Inl)
          then have "scanLoop xs i acc = Inl (FailedSubtitleBlock (FailedTimestamps e))"
            using lt ts by (simp add: scanLoop_block_error)
          moreover have "scanLoop ys i acc = Inl (FailedSubtitleBlock (FailedTimestamps e))"
            using lty ts e nth by (simp add: scanLoop_block_error)
          ultimately show ?thesis by simp
        next
          case (Inr x2)
          obtain s n where x2: "x2 = (s, n)" by (cases x2)
          with Inr have blk: "parseSubtitleBlock xs i = Inr (s, n)" by simp
          then have n: "n - 1 + 1 = n" "Suc i \<le> n" by (simp_all add: parseSubtitleBlock_Inr)
          from "1.prems"(2) n(2) have "drop n xs = drop n ys"
            by (metis suc drop_drop le_add_diff_inverse2)
          with "1.IH"(2) [OF lt ne ts Inr x2 [symmetric]] n(1) "1.prems"(1)
          have "scanLoop xs n (acc @ [s]) = scanLoop ys n (acc @ [s])" by simp
          with blk same lt lty ts nth show ?thesis
            by (simp add: scanLoop_block)
        qed
      qed
    qed
  qed
qed

lemma reached_scanLoop:
  "reached lines i \<Longrightarrow> \<exists>acc. scanLoop lines 0 [] = scanLoop lines i acc"
proof (induction rule: reached.induct)
  case reached_start
  show ?case by blast
next
  case (reached_blank i)
  then show ?case by (auto simp: scanLoop_blank)
next
  case (reached_block i subtitle nextIndex)
  then obtain acc where "scanLoop lines 0 [] = scanLoop lines i acc" by blast
  moreover have "nextIndex - 1 + 1 = nextIndex"
    using reached_block.hyps(5) by (simp add: parseSubtitleBlock_Inr)
  ultimately show ?case
    using reached_block.hyps by (auto simp: scanLoop_block)
next
  case (reached_stray i)
  then show ?case by (auto simp: scanLoop_stray)
qed

lemma takeWhile_update_later:
  "length (takeWhile P ys) < m \<Longrightarrow> takeWhile P (ys[m := x]) = takeWhile P ys"
proof (induction ys arbitrary: m)
  case Nil
  then show ?case by simp
next
  case (Cons y ys)
  then show ?case by (cases m) (auto split: if_splits)
qed

lemma reached_before_update:
  assumes "j < length lines" "lines ! j \<noteq> []"
  shows "reached lines k \<Longrightarrow> k \<le> j \<Longrightarrow>
         \<exists>acc. scanLoop lines 0 [] = scanLoop lines k acc \<and>
               scanLoop (lines[j := []]) 0 [] = scanLoop (lines[j := []]) k acc"
proof (induction rule: reached.induct)
  case reached_start
  show ?case by blast
next
  case (reached_blank i)
  then obtain acc where "scanLoop lines 0 [] = scanLoop lines i acc"
    "scanLoop (lines[j := []]) 0 [] = scanLoop (lines[j := []]) i acc" by auto
  moreover from reached_blank have "i < j" by simp
  ultimately show ?case using reached_blank.hyps assms(1)
    by (auto simp: scanLoop_blank)
next
  case (reached_stray i)
  then obtain acc where "scanLoop lines 0 [] = scanLoop lines i acc"
    "scanLoop (lines[j := []]) 0 [] = scanLoop (lines[j := []]) i acc" by auto
  moreover from reached_stray have "i < j" by simp
  ultimately show ?case using reached_stray.hyps assms(1)
    by (auto simp: scanLoop_stray)
next
  case (reached_block i subtitle nextIndex)
  let ?ne = "\<lambda>l :: string. l \<noteq> []"
  let ?t = "length (takeWhile ?ne (drop (Suc i) lines))"
  from reached_block.hyps(5) have n: "nextIndex = Suc i + ?t" "nextIndex - 1 + 1 = nextIndex"
    by (simp_all add: parseSubtitleBlock_Inr)
  with reached_block.prems have nj: "nextIndex \<le> j" and ij: "i < j" by simp_all
  from reached_block.IH ij obtain acc where acc: "scanLoop lines 0 [] = scanLoop lines i acc"
    "scanLoop (lines[j := []]) 0 [] = scanLoop (lines[j := []]) i acc" by auto
  have "nextIndex \<noteq> j"
  proof
    assume e: "nextIndex = j"
    with n(1) assms(1) have "?t < length (drop (Suc i) lines)" by simp
    then have "\<not> ?ne (drop (Suc i) lines ! ?t)" by (rule nth_length_takeWhile)
    moreover have "drop (Suc i) lines ! ?t = lines ! j"
      using e n(1) assms(1) by simp
    ultimately show False using assms(2) by simp
  qed
  with nj have "nextIndex < j" by simp
  with n(1) have "?t < j - Suc i" by simp
  then have "takeWhile ?ne ((drop (Suc i) lines)[j - Suc i := []]) = takeWhile ?ne (drop (Suc i) lines)"
    by (rule takeWhile_update_later)
  moreover have "drop (Suc i) (lines[j := []]) = (drop (Suc i) lines)[j - Suc i := []]"
    using ij by (simp add: drop_update_swap)
  ultimately have tw: "takeWhile ?ne (drop (Suc i) (lines[j := []])) = takeWhile ?ne (drop (Suc i) lines)"
    by simp
  have li: "lines[j := []] ! i = lines ! i" "length (lines[j := []]) = length lines"
    using ij by simp_all
  have "parseSubtitleBlock (lines[j := []]) i = parseSubtitleBlock lines i"
    unfolding parseSubtitleBlock_eq tw li by (rule refl)
  with reached_block.hyps acc ij assms(1) n(2) show ?case
    by (auto simp: scanLoop_block)
qed

lemma readLines_Inr:
  "readLines input = Inr lines \<Longrightarrow> lines = map (\<lambda>l. TrimSpace (dropCR l)) (ScanLines input)"
  by (simp add: readLines_def split: if_splits)

lemma ParseFromReader_scanLoop:
  "readLines input = Inr lines \<Longrightarrow> ParseFromReader input = scanLoop lines 0 []"
  by (simp add: ParseFromReader_def)

lemma scanLoop_member_reached:
  "reached lines i \<Longrightarrow> scanLoop lines i acc = Inr subtitles \<Longrightarrow> subtitle \<in> set subtitles \<Longrightarrow>
   subtitle \<in> set acc \<or>
   (\<exists>k n. reached lines k \<and> k < length lines \<and> isTimestampLine (lines ! k) \<and>
          parseSubtitleBlock lines k = Inr (subtitle, n))"
proof (induction lines i acc rule: scanLoop.induct)
  case (1 lines i acc)
  show ?case
  proof (cases "i < length lines")
    case False
    with "1.prems" show ?thesis by (simp add: scanLoop_end)
  next
    case lt: True
    show ?thesis
    proof (cases "lines ! i = []")
      case True
      from "1.prems"(1) lt True have "reached lines (i + 1)" by (rule reached_blank)
      moreover from "1.prems"(2) lt True have "scanLoop lines (i + 1) acc = Inr subtitles"
        by (simp add: scanLoop_blank)
      ultimately show ?thesis using "1.IH"(1) [OF lt True] "1.prems"(3) by blast
    next
      case ne: False
      show ?thesis
      proof (cases "isTimestampLine (lines ! i)")
        case False
        from "1.prems"(1) lt ne False have "reached lines (i + 1)" by (rule reached_stray)
        moreover from "1.prems"(2) lt False have "scanLoop lines (i + 1) acc = Inr subtitles"
          by (simp add: scanLoop_stray)
        ultimately show ?thesis using "1.IH"(3) [OF lt ne False] "1.prems"(3) by blast
      next
        case ts: True
        show ?thesis
        proof (cases "parseSubtitleBlock lines i")
          case (Inl err)
          with lt ne ts "1.prems" show ?thesis
            by (subst (asm) scanLoop.simps) simp
        next
          case (Inr x2)
          obtain s n where x2: "x2 = (s, n)" by (cases x2)
          with Inr have blk: "parseSubtitleBlock lines i = Inr (s, n)" by simp
          from "1.prems"(1) lt ne ts blk have r: "reached lines ((n - 1) + 1)"
            by (rule reached_block)
          from "1.prems"(2) lt ts blk have "scanLoop lines n (acc @ [s]) = Inr subtitles"
            by (simp add: scanLoop_block)
          moreover from blk have "n - 1 + 1 = n" by (simp add: parseSubtitleBlock_Inr)
          ultimately have "scanLoop lines (n - 1 + 1) (acc @ [s]) = Inr subtitles" by simp
          from "1.IH"(2) [OF lt ne ts Inr x2 [symmetric] r this "1.prems"(3)]
          have "subtitle \<in> set (acc @ [s]) \<or>
            (\<exists>k m. reached lines k \<and> k < length lines \<and> isTimestampLine (lines ! k) \<and>
               parseSubtitleBlock lines k = Inr (subtitle, m))" .
          then show ?thesis using "1.prems"(1) lt ts blk by auto
        qed
      qed
    qed
  qed
qed

lemma reached_failure_aborts:
  assumes "readLines input = Inr lines" "reached lines i" "i < length lines"
    and "isTimestampLine (lines ! i)" "parseTimestamps (lines ! i) = Inl err"
  shows "abortsWith input err"
proof -
  from reached_scanLoop [OF assms(2)] obtain acc
    where "scanLoop lines 0 [] = scanLoop lines i acc" by blast
  with assms show ?thesis
    by (simp add: ParseFromReader_scanLoop scanLoop_block_error)
qed

lemma parseTimestamps_time_error:
  assumes "Split l (CHR '','') = [startStr, endStr]"
    and "t = TrimSpace startStr \<and> wrap = FailedStartTime
         \<or> parseTime (TrimSpace startStr) = Inr startTime \<and> t = TrimSpace endStr \<and> wrap = FailedEndTime"
    and "parseTime t = Inl e"
  shows "parseTimestamps l = Inl (wrap e)"
  using assms by (auto simp: parseTimestamps_def)

lemma parseTimestamps_comma_count:
  "length (Split l (CHR '','')) \<noteq> 2 \<Longrightarrow> parseTimestamps l = Inl (InvalidTimestampFormat l)"
  by (auto simp: parseTimestamps_def split: list.splits)

lemma parseTime_colon_count:
  "length (Split t (CHR '':'')) \<noteq> 3 \<Longrightarrow> parseTime t = Inl (InvalidTimeFormat t)"
  by (auto simp: parseTime_def split: list.splits)

lemma parseTime_dot_count:
  "Split t (CHR '':'') = [hf, mf, sf] \<Longrightarrow> Atoi hf = Some h \<Longrightarrow> 0 \<le> h \<Longrightarrow> h \<le> 23 \<Longrightarrow>
   Atoi mf = Some m \<Longrightarrow> 0 \<le> m \<Longrightarrow> m \<le> 59 \<Longrightarrow> length (Split sf (CHR ''.'')) \<noteq> 2 \<Longrightarrow>
   parseTime t = Inl (InvalidSecondsFormat sf)"
  by (auto simp: parseTime_def split: list.splits)

subsection \<open>Round trip of the time values\<close>

text \<open>
  C1. For every input that parses and every record of the result: rendering the start
  time of the record with \<open>formatSRTTime\<close> and reading the four numeric fields of
  the rendered text back with \<open>parseTime\<close> (the comma before the milliseconds read as
  the period of the SBV form) gives exactly the start time of the record, and likewise
  for the end time.
\<close>

theorem round_trip_of_parsed_times:
  assumes "ParseFromReader input = Inr subtitles" "subtitle \<in> set subtitles"
  shows "parseTime (commaToDot (formatSRTTime (StartTime subtitle))) = Inr (StartTime subtitle)
       \<and> parseTime (commaToDot (formatSRTTime (EndTime subtitle))) = Inr (EndTime subtitle)"
proof -
  from assms(1) obtain lines where "scanLoop lines 0 [] = Inr subtitles"
    by (auto simp: ParseFromReader_def split: sum.splits)
  from scanLoop_member [OF this assms(2)] obtain k n
    where "parseSubtitleBlock lines k = Inr (subtitle, n)" by auto
  then have "parseTimestamps (lines ! k) = Inr (StartTime subtitle, EndTime subtitle)"
    by (simp add: parseSubtitleBlock_Inr)
  then obtain part0 part1 where "parseTime (TrimSpace part0) = Inr (StartTime subtitle)"
    "parseTime (TrimSpace part1) = Inr (EndTime subtitle)"
    using parseTimestamps_Inr by blast
  then show ?thesis by (simp add: roundtrip_time)
qed

lemma readLines_hours_block:
  "readLines ''1:30:15.500,1:30:20.750\<newline>Hi'' = Inr [''1:30:15.500,1:30:20.750'', ''Hi'']"
proof -
  have t: "TrimSpace (dropCR ''1:30:15.500,1:30:20.750'') = ''1:30:15.500,1:30:20.750''"
    "TrimSpace (dropCR ''Hi'') = ''Hi''"
    by code_simp+
  show ?thesis
    unfolding readLines_def by (simp add: MaxScanTokenSize_def t)
qed

lemma ParseFromReader_hours_block:
  "ParseFromReader ''1:30:15.500,1:30:20.750\<newline>Hi''
     = Inr [\<lparr>StartTime = 5415500000000, EndTime = 5420750000000, Text = ''Hi''\<rparr>]"
proof -
  have "scanLoop [''1:30:15.500,1:30:20.750'', ''Hi''] 0 []
     = Inr [\<lparr>StartTime = 5415500000000, EndTime = 5420750000000, Text = ''Hi''\<rparr>]"
    by code_simp
  then show ?thesis by (simp add: ParseFromReader_def readLines_hours_block)
qed

theorem round_trip_of_parsed_times_witness:
  "parseTime (commaToDot (formatSRTTime 5415500000000)) = Inr 5415500000000
   \<and> parseTime (commaToDot (formatSRTTime 5420750000000)) = Inr 5420750000000"
  using round_trip_of_parsed_times [OF ParseFromReader_hours_block,
      of "\<lparr>StartTime = 5415500000000, EndTime = 5420750000000, Text = ''Hi''\<rparr>"]
  by simp

subsection \<open>A field with a minus sign\<close>

text \<open>
  C2 says that the integer parse fails on every field that starts with a minus sign and
  that such a field never gets the out-of-range error. \<open>strconv.Atoi\<close> reads a sign:
  \<open>-1\<close> parses to the integer \<open>-1\<close>, the hours \<open>-1\<close> and the milliseconds
  \<open>-100\<close> are rejected by the range checks with the out-of-range errors, and the
  hours \<open>-0\<close> are accepted as zero.
\<close>

theorem negative_field_counterexample:
  "Atoi ''-1'' = Some (- 1)
   \<and> parseTime ''-1:00:30.500'' = Inl (HoursOutOfRange (- 1))
   \<and> parseTime ''1:30:45.-100'' = Inl (MillisecondsOutOfRange (- 100))
   \<and> parseTime ''-0:00:30.500'' = Inr (30 * Second + 500 * Millisecond)"
  by code_simp

text \<open>
  C2, as the code has it. A field made of a minus sign and decimal digits of a value
  \<open>n\<close> from 1 to \<open>2 ^ 63\<close> passes the integer parse: \<open>Atoi\<close> returns \<open>- n\<close>.
  \<open>parseTime\<close> then rejects the time value at the range check of that field, with the
  out-of-range error of the field carrying \<open>- n\<close>: as the hours; as the minutes after
  valid hours; as the seconds after valid hours and minutes; as the milliseconds after
  valid hours, minutes and seconds.
\<close>

theorem negative_field_out_of_range:
  assumes "ds \<noteq> []" "parseDigits ds 0 = Some n" "0 < n" "n \<le> 2 ^ 63"
  shows "Atoi (CHR ''-'' # ds) = Some (- n)
    \<and> (CHR '':'' \<notin> set mf \<and> CHR '':'' \<notin> set sf
         \<longrightarrow> parseTime ((CHR ''-'' # ds) @ '':'' @ mf @ '':'' @ sf) = Inl (HoursOutOfRange (- n)))
    \<and> (Atoi hf = Some h \<and> 0 \<le> h \<and> h \<le> 23 \<and> CHR '':'' \<notin> set sf
         \<longrightarrow> parseTime (hf @ '':'' @ (CHR ''-'' # ds) @ '':'' @ sf) = Inl (MinutesOutOfRange (- n)))
    \<and> (Atoi hf = Some h \<and> 0 \<le> h \<and> h \<le> 23 \<and> Atoi mf = Some m \<and> 0 \<le> m \<and> m \<le> 59
           \<and> CHR '':'' \<notin> set msf \<and> CHR ''.'' \<notin> set msf
         \<longrightarrow> parseTime (hf @ '':'' @ mf @ '':'' @ (CHR ''-'' # ds) @ ''.'' @ msf)
               = Inl (SecondsOutOfRange (- n)))
    \<and> (Atoi hf = Some h \<and> 0 \<le> h \<and> h \<le> 23 \<and> Atoi mf = Some m \<and> 0 \<le> m \<and> m \<le> 59
           \<and> Atoi secf = Some s \<and> 0 \<le> s \<and> s \<le> 59
         \<longrightarrow> parseTime (hf @ '':'' @ mf @ '':'' @ secf @ ''.'' @ (CHR ''-'' # ds))
               = Inl (MillisecondsOutOfRange (- n)))"
proof -
  let ?f = "CHR ''-'' # ds"
  have at: "Atoi ?f = Some (- n)" using assms by (simp add: Atoi_minus_digits)
  then have nf: "CHR '':'' \<notin> set ?f" "CHR ''.'' \<notin> set ?f"
    using Atoi_Some_no_sep by blast+
  have hours: "parseTime (?f @ '':'' @ mf @ '':'' @ sf) = Inl (HoursOutOfRange (- n))"
    if "CHR '':'' \<notin> set mf \<and> CHR '':'' \<notin> set sf"
  proof -
    have "Split (?f @ CHR '':'' # mf @ CHR '':'' # sf) (CHR '':'') = [?f, mf, sf]"
      using that nf by (simp only: Split_field Split_no_sep simp_thms)
    then show ?thesis using at assms(3) by (simp add: parseTime_def)
  qed
  have minutes: "parseTime (hf @ '':'' @ ?f @ '':'' @ sf) = Inl (MinutesOutOfRange (- n))"
    if t: "Atoi hf = Some h \<and> 0 \<le> h \<and> h \<le> 23 \<and> CHR '':'' \<notin> set sf"
  proof -
    from t have "CHR '':'' \<notin> set hf" using Atoi_Some_no_sep by blast
    then have "Split (hf @ CHR '':'' # ?f @ CHR '':'' # sf) (CHR '':'') = [hf, ?f, sf]"
      using t nf by (simp only: Split_field Split_no_sep simp_thms)
    then show ?thesis using at assms(3) t by (simp add: parseTime_def)
  qed
  have seconds: "parseTime (hf @ '':'' @ mf @ '':'' @ ?f @ ''.'' @ msf) = Inl (SecondsOutOfRange (- n))"
    if t: "Atoi hf = Some h \<and> 0 \<le> h \<and> h \<le> 23 \<and> Atoi mf = Some m \<and> 0 \<le> m \<and> m \<le> 59
           \<and> CHR '':'' \<notin> set msf \<and> CHR ''.'' \<notin> set msf"
  proof -
    from t have c: "CHR '':'' \<notin> set hf" "CHR '':'' \<notin> set mf" using Atoi_Some_no_sep by blast+
    have "CHR '':'' \<notin> set (?f @ CHR ''.'' # msf)" using t nf by simp
    then have "Split (hf @ CHR '':'' # mf @ CHR '':'' # ?f @ CHR ''.'' # msf) (CHR '':'')
        = [hf, mf, ?f @ CHR ''.'' # msf]"
      using c by (simp only: Split_field Split_no_sep simp_thms)
    moreover have "Split (?f @ CHR ''.'' # msf) (CHR ''.'') = [?f, msf]"
      using t nf by (simp only: Split_field Split_no_sep simp_thms)
    ultimately show ?thesis using at assms(3) t by (simp add: parseTime_def)
  qed
  have millis: "parseTime (hf @ '':'' @ mf @ '':'' @ secf @ ''.'' @ ?f) = Inl (MillisecondsOutOfRange (- n))"
    if t: "Atoi hf = Some h \<and> 0 \<le> h \<and> h \<le> 23 \<and> Atoi mf = Some m \<and> 0 \<le> m \<and> m \<le> 59
           \<and> Atoi secf = Some s \<and> 0 \<le> s \<and> s \<le> 59"
  proof -
    from t have c: "CHR '':'' \<notin> set hf" "CHR '':'' \<notin> set mf" "CHR '':'' \<notin> set secf"
      "CHR ''.'' \<notin> set secf"
      using Atoi_Some_no_sep by blast+
    have "CHR '':'' \<notin> set (secf @ CHR ''.'' # ?f)" using c nf by simp
    then have "Split (hf @ CHR '':'' # mf @ CHR '':'' # secf @ CHR ''.'' # ?f) (CHR '':'')
        = [hf, mf, secf @ CHR ''.'' # ?f]"
      using c by (simp only: Split_field Split_no_sep simp_thms)
    moreover have "Split (secf @ CHR ''.'' # ?f) (CHR ''.'') = [secf, ?f]"
      using c nf by (simp only: Split_field Split_no_sep simp_thms)
    ultimately show ?thesis using at assms(3) t by (simp add: parseTime_def)
  qed
  from at hours minutes seconds millis show ?thesis by blast
qed

theorem negative_field_out_of_range_witness:
  "Atoi ''-5'' = Some (- 5)
   \<and> parseTime ''-5:30:30.500'' = Inl (HoursOutOfRange (- 5))
   \<and> parseTime ''1:-5:30.500'' = Inl (MinutesOutOfRange (- 5))
   \<and> parseTime ''1:30:-5.500'' = Inl (SecondsOutOfRange (- 5))
   \<and> parseTime ''1:30:45.-5'' = Inl (MillisecondsOutOfRange (- 5))"
proof -
  have d: "''5'' \<noteq> []" "parseDigits ''5'' 0 = Some 5" "(0 :: int) < 5" "(5 :: int) \<le> 2 ^ 63"
    by code_simp+
  have a: "Atoi ''1'' = Some 1" "Atoi ''30'' = Some 30" "Atoi ''45'' = Some 45"
    by code_simp+
  from negative_field_out_of_range [OF d, where mf = "''30''" and sf = "''30.500''"
      and hf = "''1''" and h = 1 and msf = "''500''" and m = 30 and secf = "''45''" and s = 45]
  show ?thesis by (simp add: a)
qed

subsection \<open>The text of a record\<close>

text \<open>
  C3 says that the text lines of a record are kept verbatim, with no trimming of their
  own white space. \<open>ParseFromReader\<close> trims every line when it reads it: the text
  line \<open>Hello\<close> between two spaces on each side gives the text \<open>Hello\<close>.
\<close>

lemma readLines_untrimmed:
  "readLines ''0:00:01.000,0:00:04.000\<newline>  Hello  '' = Inr [''0:00:01.000,0:00:04.000'', ''Hello'']"
proof -
  have t: "TrimSpace (dropCR ''0:00:01.000,0:00:04.000'') = ''0:00:01.000,0:00:04.000''"
    "TrimSpace (dropCR ''  Hello  '') = ''Hello''"
    by code_simp+
  show ?thesis
    unfolding readLines_def by (simp add: MaxScanTokenSize_def t)
qed

theorem text_lines_verbatim_counterexample:
  "ParseFromReader ''0:00:01.000,0:00:04.000\<newline>  Hello  ''
     = Inr [\<lparr>StartTime = 1000000000, EndTime = 4000000000, Text = ''Hello''\<rparr>]"
proof -
  have "scanLoop [''0:00:01.000,0:00:04.000'', ''Hello''] 0 []
     = Inr [\<lparr>StartTime = 1000000000, EndTime = 4000000000, Text = ''Hello''\<rparr>]"
    by code_simp
  then show ?thesis by (simp add: ParseFromReader_def readLines_untrimmed)
qed

text \<open>
  C3, as the code has it. For every record of a successful parse there are a line index
  \<open>i\<close> and an index \<open>n\<close> after it, within the lines of the input, such that the
  scan reaches line \<open>i\<close>, line \<open>i\<close> trimmed is a timestamp line whose two times are
  the start and the end of the record, and the text of the record is the lines from
  \<open>i + 1\<close> up to \<open>n\<close> (excluded), each with the white space at its two ends
  trimmed (and a carriage return dropped), joined by single line feeds in their order.
  None of these trimmed lines is empty, and \<open>n\<close> is the end of the input or a line
  that is empty once trimmed.
\<close>

theorem text_is_trimmed_lines_joined:
  assumes "ParseFromReader input = Inr subtitles" "subtitle \<in> set subtitles"
  shows "\<exists>i n. reached (map (\<lambda>l. TrimSpace (dropCR l)) (ScanLines input)) i
           \<and> i < n \<and> n \<le> length (ScanLines input)
           \<and> isTimestampLine (TrimSpace (dropCR (ScanLines input ! i)))
           \<and> parseTimestamps (TrimSpace (dropCR (ScanLines input ! i)))
               = Inr (StartTime subtitle, EndTime subtitle)
           \<and> Text subtitle =
               Join (map (\<lambda>l. TrimSpace (dropCR l))
                       (take (n - Suc i) (drop (Suc i) (ScanLines input)))) [CHR 0x0A]
           \<and> list_all (\<lambda>l. TrimSpace (dropCR l) \<noteq> [])
                (take (n - Suc i) (drop (Suc i) (ScanLines input)))
           \<and> (n = length (ScanLines input) \<or> TrimSpace (dropCR (ScanLines input ! n)) = [])"
proof -
  let ?f = "\<lambda>l. TrimSpace (dropCR l)"
  let ?raw = "ScanLines input"
  let ?Q = "\<lambda>l. ?f l \<noteq> []"
  from assms(1) obtain lines where rl: "readLines input = Inr lines"
    and sc: "scanLoop lines 0 [] = Inr subtitles"
    by (auto simp: ParseFromReader_def split: sum.splits)
  from rl have lines: "lines = map ?f ?raw" by (rule readLines_Inr)
  from scanLoop_member_reached [OF reached_start sc assms(2)] obtain k n
    where k: "reached lines k" "k < length lines" "isTimestampLine (lines ! k)"
      and blk: "parseSubtitleBlock lines k = Inr (subtitle, n)" by auto
  define ys where "ys = drop (Suc k) ?raw"
  define t where "t = length (takeWhile ?Q ys)"
  have d: "drop (Suc k) lines = map ?f ys" by (simp add: lines ys_def drop_map)
  have tw: "takeWhile (\<lambda>l. l \<noteq> []) (map ?f ys) = map ?f (take t ys)"
    by (simp add: takeWhile_map comp_def t_def takeWhile_eq_take [symmetric])
  have tl: "t \<le> length ys" unfolding t_def by (rule length_takeWhile_le)
  from blk tl have tx: "Text subtitle = Join (map ?f (take t ys)) [CHR 0x0A]"
    and n: "n = Suc k + t"
    and pt: "parseTimestamps (lines ! k) = Inr (StartTime subtitle, EndTime subtitle)"
    by (simp_all add: parseSubtitleBlock_Inr d tw min_absorb2)
  have kl: "k < length ?raw" using k(2) lines by simp
  have 0: "reached (map ?f ?raw) k" using k(1) lines by simp
  have 1: "k < n" using n by simp
  have 2: "n \<le> length ?raw" using n tl kl by (simp add: ys_def)
  have 3: "isTimestampLine (?f (?raw ! k))" using k lines by simp
  have 7: "parseTimestamps (?f (?raw ! k)) = Inr (StartTime subtitle, EndTime subtitle)"
    using pt kl lines by simp
  have 4: "Text subtitle = Join (map ?f (take (n - Suc k) (drop (Suc k) ?raw))) [CHR 0x0A]"
    using tx n by (simp add: ys_def)
  have "list_all ?Q (takeWhile ?Q ys)"
    by (auto simp: list_all_iff dest: set_takeWhileD)
  moreover have "takeWhile ?Q ys = take t ys"
    unfolding t_def by (rule takeWhile_eq_take)
  moreover have "n - Suc k = t" using n by simp
  ultimately have 5: "list_all ?Q (take (n - Suc k) (drop (Suc k) ?raw))"
    by (simp add: ys_def)
  have 6: "n = length ?raw \<or> ?f (?raw ! n) = []"
  proof (cases "n = length ?raw")
    case True
    then show ?thesis by simp
  next
    case False
    with 2 n have "t < length ys" by (simp add: ys_def)
    then have "\<not> ?Q (ys ! t)" unfolding t_def by (rule nth_length_takeWhile)
    moreover have "ys ! t = ?raw ! n" using n 2 False by (simp add: ys_def)
    ultimately show ?thesis by simp
  qed
  from 0 1 2 3 7 4 5 6 show ?thesis by blast
qed

lemma ParseFromReader_two_text_lines:
  "ParseFromReader ''0:00:02.000,0:00:03.000\<newline> first \<newline> second\<newline>\<newline>rest''
     = Inr [\<lparr>StartTime = 2000000000, EndTime = 3000000000, Text = ''first\<newline>second''\<rparr>]"
proof -
  have t: "TrimSpace (dropCR ''0:00:02.000,0:00:03.000'') = ''0:00:02.000,0:00:03.000''"
    "TrimSpace (dropCR '' first '') = ''first''"
    "TrimSpace (dropCR '' second'') = ''second''"
    "TrimSpace (dropCR []) = []"
    "TrimSpace (dropCR ''rest'') = ''rest''"
    by code_simp+
  have r: "readLines ''0:00:02.000,0:00:03.000\<newline> first \<newline> second\<newline>\<newline>rest''
      = Inr [''0:00:02.000,0:00:03.000'', ''first'', ''second'', [], ''rest'']"
    unfolding readLines_def by (simp add: MaxScanTokenSize_def t)
  have "scanLoop [''0:00:02.000,0:00:03.000'', ''first'', ''second'', [], ''rest''] 0 []
     = Inr [\<lparr>StartTime = 2000000000, EndTime = 3000000000, Text = ''first\<newline>second''\<rparr>]"
    by code_simp
  then show ?thesis by (simp add: ParseFromReader_def r)
qed

theorem text_is_trimmed_lines_joined_witness:
  "\<exists>i n. reached (map (\<lambda>l. TrimSpace (dropCR l))
              (ScanLines ''0:00:02.000,0:00:03.000\<newline> first \<newline> second\<newline>\<newline>rest'')) i
     \<and> i < n
     \<and> n \<le> length (ScanLines ''0:00:02.000,0:00:03.000\<newline> first \<newline> second\<newline>\<newline>rest'')
     \<and> isTimestampLine (TrimSpace (dropCR
          (ScanLines ''0:00:02.000,0:00:03.000\<newline> first \<newline> second\<newline>\<newline>rest'' ! i)))
     \<and> parseTimestamps (TrimSpace (dropCR
          (ScanLines ''0:00:02.000,0:00:03.000\<newline> first \<newline> second\<newline>\<newline>rest'' ! i)))
         = Inr (StartTime \<lparr>StartTime = 2000000000, EndTime = 3000000000,
                            Text = ''first\<newline>second''\<rparr>,
                EndTime \<lparr>StartTime = 2000000000, EndTime = 3000000000,
                          Text = ''first\<newline>second''\<rparr>)
     \<and> Text \<lparr>StartTime = 2000000000, EndTime = 3000000000, Text = ''first\<newline>second''\<rparr> =
         Join (map (\<lambda>l. TrimSpace (dropCR l))
                 (take (n - Suc i) (drop (Suc i)
                    (ScanLines ''0:00:02.000,0:00:03.000\<newline> first \<newline> second\<newline>\<newline>rest''))))
           [CHR 0x0A]
     \<and> list_all (\<lambda>l. TrimSpace (dropCR l) \<noteq> [])
          (take (n - Suc i) (drop (Suc i)
             (ScanLines ''0:00:02.000,0:00:03.000\<newline> first \<newline> second\<newline>\<newline>rest'')))
     \<and> (n = length (ScanLines ''0:00:02.000,0:00:03.000\<newline> first \<newline> second\<newline>\<newline>rest'')
          \<or> TrimSpace (dropCR
               (ScanLines ''0:00:02.000,0:00:03.000\<newline> first \<newline> second\<newline>\<newline>rest'' ! n)) = [])"
  by (rule text_is_trimmed_lines_joined [OF ParseFromReader_two_text_lines]) simp

subsection \<open>A malformed timestamp line aborts the parse\<close>

text \<open>
  C4 says that the error of a malformed timestamp line identifies the offending line.
  The errors of \<open>parseTimestamps\<close> and \<open>parseTime\<close> carry the text or the value
  that failed a validation and nothing of the place of the line: the input whose only
  line starts at 25 hours and the input whose fourth line, a different line after a
  block that parsed, starts at 25 hours return the same error.
\<close>

lemma readLines_hours_25_first:
  "readLines ''25:00:00.000,0:00:01.000'' = Inr [''25:00:00.000,0:00:01.000'']"
proof -
  have t: "TrimSpace (dropCR ''25:00:00.000,0:00:01.000'') = ''25:00:00.000,0:00:01.000''"
    by code_simp
  show ?thesis
    unfolding readLines_def by (simp add: MaxScanTokenSize_def t)
qed

lemma readLines_hours_25_later:
  "readLines ''0:00:01.000,0:00:04.000\<newline>Hello\<newline>\<newline>25:11:11.111,0:00:02.000''
     = Inr [''0:00:01.000,0:00:04.000'', ''Hello'', [], ''25:11:11.111,0:00:02.000'']"
proof -
  have t: "TrimSpace (dropCR ''0:00:01.000,0:00:04.000'') = ''0:00:01.000,0:00:04.000''"
    "TrimSpace (dropCR ''Hello'') = ''Hello''"
    "TrimSpace (dropCR []) = []"
    "TrimSpace (dropCR ''25:11:11.111,0:00:02.000'') = ''25:11:11.111,0:00:02.000''"
    by code_simp+
  show ?thesis
    unfolding readLines_def by (simp add: MaxScanTokenSize_def t)
qed

theorem error_identifies_line_counterexample:
  "readLines ''25:00:00.000,0:00:01.000'' = Inr [''25:00:00.000,0:00:01.000'']
   \<and> ParseFromReader ''25:00:00.000,0:00:01.000''
       = Inl (FailedSubtitleBlock (FailedTimestamps (FailedStartTime (HoursOutOfRange 25))))
   \<and> readLines ''0:00:01.000,0:00:04.000\<newline>Hello\<newline>\<newline>25:11:11.111,0:00:02.000''
       = Inr [''0:00:01.000,0:00:04.000'', ''Hello'', [], ''25:11:11.111,0:00:02.000'']
   \<and> ParseFromReader ''0:00:01.000,0:00:04.000\<newline>Hello\<newline>\<newline>25:11:11.111,0:00:02.000''
       = Inl (FailedSubtitleBlock (FailedTimestamps (FailedStartTime (HoursOutOfRange 25))))"
proof -
  have "scanLoop [''25:00:00.000,0:00:01.000''] 0 []
      = Inl (FailedSubtitleBlock (FailedTimestamps (FailedStartTime (HoursOutOfRange 25))))"
    by code_simp
  then have a: "ParseFromReader ''25:00:00.000,0:00:01.000''
       = Inl (FailedSubtitleBlock (FailedTimestamps (FailedStartTime (HoursOutOfRange 25))))"
    by (simp add: ParseFromReader_def readLines_hours_25_first)
  have "scanLoop [''0:00:01.000,0:00:04.000'', ''Hello'', [], ''25:11:11.111,0:00:02.000''] 0 []
      = Inl (FailedSubtitleBlock (FailedTimestamps (FailedStartTime (HoursOutOfRange 25))))"
    by code_simp
  then have b: "ParseFromReader ''0:00:01.000,0:00:04.000\<newline>Hello\<newline>\<newline>25:11:11.111,0:00:02.000''
       = Inl (FailedSubtitleBlock (FailedTimestamps (FailedStartTime (HoursOutOfRange 25))))"
    by (simp add: ParseFromReader_def readLines_hours_25_later)
  from a b readLines_hours_25_first readLines_hours_25_later show ?thesis
    by (simp only: simp_thms)
qed

text \<open>
  C4, as the code has it. Let the lines of the input be read and let the scan reach a
  timestamp line (a line with a comma and a colon). Whenever \<open>parseTimestamps\<close> fails
  on the line, \<open>ParseFromReader\<close> returns that error, wrapped as the error of the
  block, and no list of records, whatever blocks were parsed before the line. Each
  malformation is such a failure, with the error of its validation and the text or value
  that failed it: a number of comma-separated parts other than two, with the whole line;
  then, for the start time, or for the end time when the start time parsed, marked as
  the one or the other: a number of colon fields other than three, with the time value;
  hours that are no integer, with their text, or out of 0 to 23, with their value;
  likewise the minutes (0 to 59) after valid hours; a number of period subfields of the
  seconds field other than two, with that field; seconds that are no integer or out of
  0 to 59; milliseconds that are no integer or out of 0 to 999.
\<close>

theorem malformed_timestamp_aborts:
  assumes "readLines input = Inr lines" "reached lines i" "i < length lines"
    and "isTimestampLine (lines ! i)"
  shows
   "(parseTimestamps (lines ! i) = Inl err
       \<longrightarrow> abortsWith input err \<and> (\<forall>subtitles. ParseFromReader input \<noteq> Inr subtitles))
  \<and> (length (Split (lines ! i) (CHR '','')) \<noteq> 2
       \<longrightarrow> abortsWith input (InvalidTimestampFormat (lines ! i)))
  \<and> (Split (lines ! i) (CHR '','') = [startStr, endStr]
      \<and> (t = TrimSpace startStr \<and> wrap = FailedStartTime
         \<or> parseTime (TrimSpace startStr) = Inr startTime \<and> t = TrimSpace endStr
           \<and> wrap = FailedEndTime)
    \<longrightarrow> (length (Split t (CHR '':'')) \<noteq> 3 \<longrightarrow> abortsWith input (wrap (InvalidTimeFormat t)))
      \<and> (Split t (CHR '':'') = [hf, mf, sf] \<longrightarrow>
           (Atoi hf = None \<longrightarrow> abortsWith input (wrap (InvalidHours hf)))
         \<and> (Atoi hf = Some h \<and> (h < 0 \<or> 23 < h)
              \<longrightarrow> abortsWith input (wrap (HoursOutOfRange h)))
         \<and> (Atoi hf = Some h \<and> 0 \<le> h \<and> h \<le> 23 \<longrightarrow>
              (Atoi mf = None \<longrightarrow> abortsWith input (wrap (InvalidMinutes mf)))
            \<and> (Atoi mf = Some m \<and> (m < 0 \<or> 59 < m)
                 \<longrightarrow> abortsWith input (wrap (MinutesOutOfRange m)))
            \<and> (Atoi mf = Some m \<and> 0 \<le> m \<and> m \<le> 59 \<longrightarrow>
                 (length (Split sf (CHR ''.'')) \<noteq> 2
                    \<longrightarrow> abortsWith input (wrap (InvalidSecondsFormat sf)))
               \<and> (Split sf (CHR ''.'') = [secf, msf] \<longrightarrow>
                    (Atoi secf = None \<longrightarrow> abortsWith input (wrap (InvalidSeconds secf)))
                  \<and> (Atoi secf = Some s \<and> (s < 0 \<or> 59 < s)
                       \<longrightarrow> abortsWith input (wrap (SecondsOutOfRange s)))
                  \<and> (Atoi secf = Some s \<and> 0 \<le> s \<and> s \<le> 59 \<longrightarrow>
                       (Atoi msf = None
                          \<longrightarrow> abortsWith input (wrap (InvalidMilliseconds msf)))
                     \<and> (Atoi msf = Some ms \<and> (ms < 0 \<or> 999 < ms)
                          \<longrightarrow> abortsWith input (wrap (MillisecondsOutOfRange ms)))))))))"
proof -
  note ab = reached_failure_aborts [OF assms]
  have time: "abortsWith input (wrap e)"
    if "Split (lines ! i) (CHR '','') = [startStr, endStr]"
      "t = TrimSpace startStr \<and> wrap = FailedStartTime
         \<or> parseTime (TrimSpace startStr) = Inr startTime \<and> t = TrimSpace endStr
           \<and> wrap = FailedEndTime"
      "parseTime t = Inl e" for e
    using ab [OF parseTimestamps_time_error [OF that]] .
  show ?thesis
  proof (intro conjI impI; (elim conjE)?)
    assume e: "parseTimestamps (lines ! i) = Inl err"
    then show "abortsWith input err" by (rule ab)
    from ab [OF e] show "\<forall>subtitles. ParseFromReader input \<noteq> Inr subtitles" by simp
  next
    assume "length (Split (lines ! i) (CHR '','')) \<noteq> 2"
    then show "abortsWith input (InvalidTimestampFormat (lines ! i))"
      by (intro ab parseTimestamps_comma_count)
  next
    assume sp: "Split (lines ! i) (CHR '','') = [startStr, endStr]"
      and w: "t = TrimSpace startStr \<and> wrap = FailedStartTime
         \<or> parseTime (TrimSpace startStr) = Inr startTime \<and> t = TrimSpace endStr
           \<and> wrap = FailedEndTime"
    note tm = time [OF sp w]
    {
      assume "length (Split t (CHR '':'')) \<noteq> 3"
      then show "abortsWith input (wrap (InvalidTimeFormat t))"
        by (intro tm parseTime_colon_count)
    }
    assume c: "Split t (CHR '':'') = [hf, mf, sf]"
    {
      assume "Atoi hf = None"
      with c show "abortsWith input (wrap (InvalidHours hf))"
        by (intro tm) (simp add: parseTime_def)
    }
    {
      assume "Atoi hf = Some h" "h < 0 \<or> 23 < h"
      with c show "abortsWith input (wrap (HoursOutOfRange h))"
        by (intro tm) (auto simp: parseTime_def)
    }
    assume h: "Atoi hf = Some h" "0 \<le> h" "h \<le> 23"
    {
      assume "Atoi mf = None"
      with c h show "abortsWith input (wrap (InvalidMinutes mf))"
        by (intro tm) (simp add: parseTime_def)
    }
    {
      assume "Atoi mf = Some m" "m < 0 \<or> 59 < m"
      with c h show "abortsWith input (wrap (MinutesOutOfRange m))"
        by (intro tm) (auto simp: parseTime_def)
    }
    assume m: "Atoi mf = Some m" "0 \<le> m" "m \<le> 59"
    {
      assume "length (Split sf (CHR ''.'')) \<noteq> 2"
      with c h m show "abortsWith input (wrap (InvalidSecondsFormat sf))"
        by (intro tm parseTime_dot_count)
    }
    assume d: "Split sf (CHR ''.'') = [secf, msf]"
    {
      assume "Atoi secf = None"
      with c h m d show "abortsWith input (wrap (InvalidSeconds secf))"
        by (intro tm) (simp add: parseTime_def)
    }
    {
      assume "Atoi secf = Some s" "s < 0 \<or> 59 < s"
      with c h m d show "abortsWith input (wrap (SecondsOutOfRange s))"
        by (intro tm) (auto simp: parseTime_def)
    }
    assume s: "Atoi secf = Some s" "0 \<le> s" "s \<le> 59"
    {
      assume "Atoi msf = None"
      with c h m d s show "abortsWith input (wrap (InvalidMilliseconds msf))"
        by (intro tm) (simp add: parseTime_def)
    }
    {
      assume "Atoi msf = Some ms" "ms < 0 \<or> 999 < ms"
      with c h m d s show "abortsWith input (wrap (MillisecondsOutOfRange ms))"
        by (intro tm) (auto simp: parseTime_def)
    }
  qed
qed

lemma readLines_bad_second_block:
  "readLines ''0:00:01.000,0:00:04.000\<newline>Hello\<newline>\<newline>0:60:01.000,0:00:04.000\<newline>World''
     = Inr [''0:00:01.000,0:00:04.000'', ''Hello'', [], ''0:60:01.000,0:00:04.000'', ''World'']"
proof -
  have t: "TrimSpace (dropCR ''0:00:01.000,0:00:04.000'') = ''0:00:01.000,0:00:04.000''"
    "TrimSpace (dropCR ''Hello'') = ''Hello''"
    "TrimSpace (dropCR []) = []"
    "TrimSpace (dropCR ''0:60:01.000,0:00:04.000'') = ''0:60:01.000,0:00:04.000''"
    "TrimSpace (dropCR ''World'') = ''World''"
    by code_simp+
  show ?thesis
    unfolding readLines_def by (simp add: MaxScanTokenSize_def t)
qed

lemma readLines_bad_end_time:
  "readLines ''0:00:01.000,0:00:70.000''= Inr [''0:00:01.000,0:00:70.000'']"
proof -
  have t: "TrimSpace (dropCR ''0:00:01.000,0:00:70.000'') = ''0:00:01.000,0:00:70.000''"
    by code_simp
  show ?thesis
    unfolding readLines_def by (simp add: MaxScanTokenSize_def t)
qed

lemma readLines_three_times:
  "readLines ''0:00:01.000,0:00:04.000,0:00:06.000''= Inr [''0:00:01.000,0:00:04.000,0:00:06.000'']"
proof -
  have t: "TrimSpace (dropCR ''0:00:01.000,0:00:04.000,0:00:06.000'')
      = ''0:00:01.000,0:00:04.000,0:00:06.000''"
    by code_simp
  show ?thesis
    unfolding readLines_def by (simp add: MaxScanTokenSize_def t)
qed

theorem malformed_timestamp_aborts_witness:
  "abortsWith ''0:00:01.000,0:00:04.000\<newline>Hello\<newline>\<newline>0:60:01.000,0:00:04.000\<newline>World''
     (FailedStartTime (MinutesOutOfRange 60))
   \<and> abortsWith ''0:00:01.000,0:00:70.000'' (FailedEndTime (SecondsOutOfRange 70))
   \<and> abortsWith ''0:00:01.000,0:00:04.000,0:00:06.000''
       (InvalidTimestampFormat ''0:00:01.000,0:00:04.000,0:00:06.000'')"
proof -
  let ?lines = "[''0:00:01.000,0:00:04.000'', ''Hello'', [], ''0:60:01.000,0:00:04.000'', ''World'']"
  have b: "parseSubtitleBlock ?lines 0
      = Inr (\<lparr>StartTime = 1000000000, EndTime = 4000000000, Text = ''Hello''\<rparr>, 2)"
    by code_simp
  have ts: "isTimestampLine (?lines ! 0)" "isTimestampLine (?lines ! 3)" by code_simp+
  have n: "(2 :: nat) - 1 + 1 = 2" "(2 :: nat) + 1 = 3" by simp_all
  have "reached ?lines ((2 - 1) + 1)"
    by (rule reached_block [OF reached_start _ _ ts(1) b]) simp_all
  then have "reached ?lines 2" unfolding n .
  then have "reached ?lines (2 + 1)" by (rule reached_blank) simp_all
  then have r: "reached ?lines 3" unfolding n .
  have lt: "3 < length ?lines" by simp
  have tr: "TrimSpace ''0:60:01.000'' = ''0:60:01.000''" by code_simp
  have sp0: "Split (?lines ! 3) (CHR '','') = [''0:60:01.000'', ''0:00:04.000'']"
    by code_simp
  have sp: "Split (?lines ! 3) (CHR '','') = [''0:60:01.000'', ''0:00:04.000'']
      \<and> (''0:60:01.000'' = TrimSpace ''0:60:01.000'' \<and> FailedStartTime = FailedStartTime
         \<or> parseTime (TrimSpace ''0:60:01.000'') = Inr 0 \<and> ''0:60:01.000'' = TrimSpace ''0:00:04.000''
           \<and> FailedStartTime = FailedEndTime)"
    unfolding tr using sp0 by (simp only: simp_thms)
  have sp': "Split ''0:60:01.000'' (CHR '':'') = [''0'', ''60'', ''01.000'']"
    "Atoi ''0'' = Some 0 \<and> (0 :: int) \<le> 0 \<and> (0 :: int) \<le> 23"
    "Atoi ''60'' = Some 60 \<and> ((60 :: int) < 0 \<or> (59 :: int) < 60)"
    by code_simp+
  have 1: "abortsWith ''0:00:01.000,0:00:04.000\<newline>Hello\<newline>\<newline>0:60:01.000,0:00:04.000\<newline>World''
     (FailedStartTime (MinutesOutOfRange 60))"
    using malformed_timestamp_aborts [OF readLines_bad_second_block r lt ts(2),
        where startStr = "''0:60:01.000''" and endStr = "''0:00:04.000''" and t = "''0:60:01.000''"
          and wrap = FailedStartTime and startTime = 0
          and hf = "''0''" and mf = "''60''" and sf = "''01.000''" and h = 0 and m = 60] sp sp'
    by blast
  let ?l2 = "[''0:00:01.000,0:00:70.000'']"
  have ts2: "isTimestampLine (?l2 ! 0)" by code_simp
  have lt2: "0 < length ?l2" by simp
  have tr2: "TrimSpace ''0:00:70.000'' = ''0:00:70.000''"
    "parseTime (TrimSpace ''0:00:01.000'') = Inr 1000000000"
    by code_simp+
  have sp20: "Split (?l2 ! 0) (CHR '','') = [''0:00:01.000'', ''0:00:70.000'']"
    by code_simp
  have sp2: "Split (?l2 ! 0) (CHR '','') = [''0:00:01.000'', ''0:00:70.000'']
      \<and> (''0:00:70.000'' = TrimSpace ''0:00:01.000'' \<and> FailedEndTime = FailedStartTime
         \<or> parseTime (TrimSpace ''0:00:01.000'') = Inr 1000000000
           \<and> ''0:00:70.000'' = TrimSpace ''0:00:70.000'' \<and> FailedEndTime = FailedEndTime)"
    unfolding tr2 using sp20 by (simp only: simp_thms)
  have sp2': "Split ''0:00:70.000'' (CHR '':'') = [''0'', ''00'', ''70.000'']"
    "Atoi ''0'' = Some 0 \<and> (0 :: int) \<le> 0 \<and> (0 :: int) \<le> 23"
    "Atoi ''00'' = Some 0 \<and> (0 :: int) \<le> 0 \<and> (0 :: int) \<le> 59"
    "Split ''70.000'' (CHR ''.'') = [''70'', ''000'']"
    "Atoi ''70'' = Some 70 \<and> ((70 :: int) < 0 \<or> (59 :: int) < 70)"
    by code_simp+
  have 2: "abortsWith ''0:00:01.000,0:00:70.000'' (FailedEndTime (SecondsOutOfRange 70))"
    using malformed_timestamp_aborts [OF readLines_bad_end_time reached_start lt2 ts2,
        where startStr = "''0:00:01.000''" and endStr = "''0:00:70.000''" and t = "''0:00:70.000''"
          and wrap = FailedEndTime and startTime = 1000000000
          and hf = "''0''" and mf = "''00''" and sf = "''70.000''" and h = 0 and m = 0
          and secf = "''70''" and msf = "''000''" and s = 70] sp2 sp2'
    by blast
  let ?l3 = "[''0:00:01.000,0:00:04.000,0:00:06.000'']"
  have ts3: "isTimestampLine (?l3 ! 0)" by code_simp
  have lt3: "0 < length ?l3" by simp
  have c3: "length (Split (?l3 ! 0) (CHR '','')) \<noteq> 2" by code_simp
  have 3: "abortsWith ''0:00:01.000,0:00:04.000,0:00:06.000''
       (InvalidTimestampFormat ''0:00:01.000,0:00:04.000,0:00:06.000'')"
    using malformed_timestamp_aborts [OF readLines_three_times reached_start lt3 ts3] c3
    by simp
  from 1 2 3 show ?thesis by blast
qed

subsection \<open>The examples of the specification\<close>

lemma readLines_example:
  "readLines ''0:00:01.000,0:00:04.000\<newline>Hello\<newline>\<newline>0:00:05.500,0:00:08.200\<newline>World''
     = Inr [''0:00:01.000,0:00:04.000'', ''Hello'', [], ''0:00:05.500,0:00:08.200'', ''World'']"
proof -
  have t: "TrimSpace (dropCR ''0:00:01.000,0:00:04.000'') = ''0:00:01.000,0:00:04.000''"
    "TrimSpace (dropCR ''Hello'') = ''Hello''"
    "TrimSpace (dropCR []) = []"
    "TrimSpace (dropCR ''0:00:05.500,0:00:08.200'') = ''0:00:05.500,0:00:08.200''"
    "TrimSpace (dropCR ''World'') = ''World''"
    by code_simp+
  show ?thesis
    unfolding readLines_def by (simp add: MaxScanTokenSize_def t)
qed

lemma scanLoop_example:
  "scanLoop [''0:00:01.000,0:00:04.000'', ''Hello'', [], ''0:00:05.500,0:00:08.200'', ''World''] 0 []
     = Inr [\<lparr>StartTime = 1000000000, EndTime = 4000000000, Text = ''Hello''\<rparr>,
            \<lparr>StartTime = 5500000000, EndTime = 8200000000, Text = ''World''\<rparr>]"
  by code_simp

text \<open>
  C5. Parsing the two-block example of the specification succeeds with exactly two
  records in source order: from 1 s to 4 s with the text \<open>Hello\<close>, and from 5.5 s to
  8.2 s with the text \<open>World\<close> (durations in nanoseconds).
\<close>

theorem ParseFromReader_two_blocks:
  "ParseFromReader ''0:00:01.000,0:00:04.000\<newline>Hello\<newline>\<newline>0:00:05.500,0:00:08.200\<newline>World''
     = Inr [\<lparr>StartTime = 1 * Second, EndTime = 4 * Second, Text = ''Hello''\<rparr>,
            \<lparr>StartTime = 5 * Second + 500 * Millisecond,
             EndTime = 8 * Second + 200 * Millisecond, Text = ''World''\<rparr>]"
  by (simp add: ParseFromReader_def readLines_example scanLoop_example Second_def Millisecond_def)

text \<open>
  C6. The formatter applied to the single record from 1 s to 4 s with the text \<open>X\<close>
  returns exactly the sequence number 1, the line \<open>00:00:01,000 --> 00:00:04,000\<close>,
  the text and a blank line.
\<close>

theorem ConvertToSRT_single_record:
  "ConvertToSRT [\<lparr>StartTime = 1 * Second, EndTime = 4 * Second, Text = ''X''\<rparr>]
     = ''1\<newline>00:00:01,000 --> 00:00:04,000\<newline>X\<newline>\<newline>''"
  by code_simp

subsection \<open>The formatter numbers the blocks in input order\<close>

lemma convertLoop_blocks:
  "convertLoop i subtitles result =
     result @ concat (map (\<lambda>k. writeBlock (i + k) (subtitles ! k)) [0..<length subtitles])"
proof (induction subtitles arbitrary: i result)
  case Nil
  show ?case by simp
next
  case (Cons subtitle rest)
  have "map (\<lambda>k. writeBlock (i + k) ((subtitle # rest) ! k)) [0..<length (subtitle # rest)]
        = writeBlock i subtitle # map (\<lambda>k. writeBlock (Suc i + k) (rest ! k)) [0..<length rest]"
    by (simp add: upt_conv_Cons map_Suc_upt [symmetric] del: upt_Suc)
  with Cons.IH [of "i + 1" "result @ writeBlock i subtitle"] show ?case by simp
qed

lemma of_char_digitChar: "d < 10 \<Longrightarrow> (of_char (digitChar d) :: nat) = 48 + d"
  by (simp add: digitChar_def)

lemma digitsOf_decimal:
  "list_all (\<lambda>c. 48 \<le> (of_char c :: nat) \<and> (of_char c :: nat) \<le> 57) (digitsOf n)
   \<and> foldl (\<lambda>a c. 10 * a + ((of_char c :: nat) - 48)) a (digitsOf n)
       = a * 10 ^ length (digitsOf n) + n
   \<and> (0 < n \<longrightarrow> hd (digitsOf n) \<noteq> CHR ''0'')"
proof (induction n arbitrary: a rule: digitsOf.induct)
  case (1 n)
  show ?case
  proof (cases "n < 10")
    case True
    then have d: "digitsOf n = [digitChar n]" by (subst digitsOf.simps) simp
    have "0 < n \<Longrightarrow> digitChar n \<noteq> CHR ''0''"
    proof
      assume "0 < n" "digitChar n = CHR ''0''"
      then have "(of_char (digitChar n) :: nat) = 48" by simp
      with True \<open>0 < n\<close> show False by (simp add: of_char_digitChar)
    qed
    with True show ?thesis by (simp add: d of_char_digitChar)
  next
    case False
    have m: "n mod 10 < 10" by simp
    from False have d: "digitsOf n = digitsOf (n div 10) @ [digitChar (n mod 10)]"
      by (subst digitsOf.simps) simp
    from False have p: "0 < n div 10" by (simp add: div_greater_zero_iff)
    have ne: "digitsOf (n div 10) \<noteq> []" by (rule digitsOf_not_Nil)
    from 1 [OF False] p ne show ?thesis
      by (simp add: d of_char_digitChar [OF m] algebra_simps)
  qed
qed

text \<open>
  C7. There is a numbering \<open>num\<close> with \<open>num i\<close> the decimal numeral of \<open>i + 1\<close>
  (digits from \<open>0\<close> to \<open>9\<close>, the first one not \<open>0\<close>, of value \<open>i + 1\<close>) such that
  for every list of \<open>N\<close> records the output of the formatter is the concatenation of
  exactly \<open>N\<close> blocks, the block at position \<open>i\<close> (from 0) made of the line
  \<open>num i\<close>, the line of the two times of the record at position \<open>i\<close> of the input,
  its text and a blank line: the numbers are 1 to \<open>N\<close>, the records keep the order of
  the input, and no block depends on another record. The two records of the test of the
  repository give the blocks numbered 1 and 2.
\<close>

theorem ConvertToSRT_numbers_in_input_order:
  "(\<exists>num.
      (\<forall>i. num i \<noteq> [] \<and> hd (num i) \<noteq> CHR ''0''
           \<and> list_all (\<lambda>c. 48 \<le> (of_char c :: nat) \<and> (of_char c :: nat) \<le> 57) (num i)
           \<and> foldl (\<lambda>a c. 10 * a + ((of_char c :: nat) - 48)) 0 (num i) = i + 1)
      \<and> (\<forall>subtitles.
           ConvertToSRT subtitles =
             concat (map (\<lambda>i. num i @ [CHR 0x0A]
                              @ formatSRTTime (StartTime (subtitles ! i)) @ '' --> ''
                              @ formatSRTTime (EndTime (subtitles ! i)) @ [CHR 0x0A]
                              @ Text (subtitles ! i) @ [CHR 0x0A, CHR 0x0A])
                        [0..<length subtitles])))
   \<and> ConvertToSRT
        [\<lparr>StartTime = 1 * Second, EndTime = 4 * Second, Text = ''First subtitle''\<rparr>,
         \<lparr>StartTime = 5 * Second + 500 * Millisecond,
          EndTime = 8 * Second + 200 * Millisecond,
          Text = ''Second subtitle\<newline>with multiple lines''\<rparr>]
      = ''1\<newline>00:00:01,000 --> 00:00:04,000\<newline>First subtitle\<newline>\<newline>2\<newline>00:00:05,500 --> 00:00:08,200\<newline>Second subtitle\<newline>with multiple lines\<newline>\<newline>''"
proof (rule conjI)
  let ?num = "\<lambda>i. Itoa (int i + 1)"
  have n: "?num i = digitsOf (Suc i)" for i
    by (simp add: Itoa_def nat_add_distrib)
  have "?num i \<noteq> [] \<and> hd (?num i) \<noteq> CHR ''0''
           \<and> list_all (\<lambda>c. 48 \<le> (of_char c :: nat) \<and> (of_char c :: nat) \<le> 57) (?num i)
           \<and> foldl (\<lambda>a c. 10 * a + ((of_char c :: nat) - 48)) 0 (?num i) = i + 1" for i
    unfolding n using digitsOf_decimal [of "Suc i" 0] digitsOf_not_Nil [of "Suc i"] by simp
  moreover have "ConvertToSRT subtitles =
          concat (map (\<lambda>i. ?num i @ [CHR 0x0A]
                           @ formatSRTTime (StartTime (subtitles ! i)) @ '' --> ''
                           @ formatSRTTime (EndTime (subtitles ! i)) @ [CHR 0x0A]
                           @ Text (subtitles ! i) @ [CHR 0x0A, CHR 0x0A])
                     [0..<length subtitles])" for subtitles
    using convertLoop_blocks [of 0 subtitles "[]"]
    by (simp add: ConvertToSRT_def writeBlock_def)
  ultimately show "\<exists>num.
      (\<forall>i. num i \<noteq> [] \<and> hd (num i) \<noteq> CHR ''0''
           \<and> list_all (\<lambda>c. 48 \<le> (of_char c :: nat) \<and> (of_char c :: nat) \<le> 57) (num i)
           \<and> foldl (\<lambda>a c. 10 * a + ((of_char c :: nat) - 48)) 0 (num i) = i + 1)
      \<and> (\<forall>subtitles.
           ConvertToSRT subtitles =
             concat (map (\<lambda>i. num i @ [CHR 0x0A]
                              @ formatSRTTime (StartTime (subtitles ! i)) @ '' --> ''
                              @ formatSRTTime (EndTime (subtitles ! i)) @ [CHR 0x0A]
                              @ Text (subtitles ! i) @ [CHR 0x0A, CHR 0x0A])
                        [0..<length subtitles]))"
    by (intro exI [of _ ?num]) blast
next
  show "ConvertToSRT
        [\<lparr>StartTime = 1 * Second, EndTime = 4 * Second, Text = ''First subtitle''\<rparr>,
         \<lparr>StartTime = 5 * Second + 500 * Millisecond,
          EndTime = 8 * Second + 200 * Millisecond,
          Text = ''Second subtitle\<newline>with multiple lines''\<rparr>]
      = ''1\<newline>00:00:01,000 --> 00:00:04,000\<newline>First subtitle\<newline>\<newline>2\<newline>00:00:05,500 --> 00:00:08,200\<newline>Second subtitle\<newline>with multiple lines\<newline>\<newline>''"
    by code_simp
qed

subsection \<open>Lines that are not timestamp lines\<close>

text \<open>
  C8 says that on every input a line without a comma or without a colon is skipped
  without an error, and that an input of such lines only parses to the empty sequence.
  The lines are read through a \<open>bufio.Scanner\<close> with its default buffer: on the
  input of one line of 70000 letters \<open>a\<close> (not empty once trimmed, no comma, no
  colon) the read fails, and \<open>ParseFromReader\<close> returns the read error, not the empty
  sequence.
\<close>

lemma ScanLines_one_line:
  "CHR 0x0A \<notin> set s \<Longrightarrow> s \<noteq> [] \<Longrightarrow> ScanLines s = [s]"
proof (induction s)
  case Nil
  then show ?case by simp
next
  case (Cons c cs)
  then show ?case by (cases cs) auto
qed

lemma trimLeading_none: "leadingWidth encs s = 0 \<Longrightarrow> trimLeading encs s = s"
  by (subst trimLeading.simps) simp

lemma TrimSpace_letters:
  "TrimSpace (replicate (Suc n) (CHR ''a'')) = replicate (Suc n) (CHR ''a'')"
proof -
  have 1: "leadingWidth spaceEncodings (CHR ''a'' # s) = 0" for s
    by (simp add: spaceEncodings_def)
  have 2: "leadingWidth (map rev spaceEncodings) (CHR ''a'' # s) = 0" for s
    by (simp add: spaceEncodings_def)
  have r: "replicate (Suc n) (CHR ''a'') = CHR ''a'' # replicate n (CHR ''a'')" by simp
  have rr: "rev (replicate (Suc n) (CHR ''a'')) = replicate (Suc n) (CHR ''a'')"
    by (rule rev_replicate)
  have t1: "trimLeading spaceEncodings (replicate (Suc n) (CHR ''a''))
      = replicate (Suc n) (CHR ''a'')"
    unfolding r by (rule trimLeading_none [OF 1])
  have t2: "trimLeading (map rev spaceEncodings) (replicate (Suc n) (CHR ''a''))
      = replicate (Suc n) (CHR ''a'')"
    unfolding r by (rule trimLeading_none [OF 2])
  show ?thesis unfolding TrimSpace_def t1 rr t2 by (rule refl)
qed

theorem long_stray_line_counterexample:
  "ScanLines (replicate 70000 (CHR ''a'')) = [replicate 70000 (CHR ''a'')]
   \<and> TrimSpace (dropCR (replicate 70000 (CHR ''a''))) = replicate 70000 (CHR ''a'')
   \<and> \<not> isTimestampLine (replicate 70000 (CHR ''a''))
   \<and> ParseFromReader (replicate 70000 (CHR ''a'')) = Inl ErrorReadingInput"
proof -
  have n: "(70000 :: nat) = Suc 69999" by simp
  have s: "ScanLines (replicate 70000 (CHR ''a'')) = [replicate 70000 (CHR ''a'')]"
    by (rule ScanLines_one_line) simp_all
  have "dropCR (replicate 70000 (CHR ''a'')) = replicate 70000 (CHR ''a'')"
    by (simp add: dropCR_def)
  then have t: "TrimSpace (dropCR (replicate 70000 (CHR ''a''))) = replicate 70000 (CHR ''a'')"
    unfolding n by (simp only: TrimSpace_letters)
  have i: "\<not> isTimestampLine (replicate 70000 (CHR ''a''))"
    by (simp add: isTimestampLine_def ContainsRune_def)
  have "readLines (replicate 70000 (CHR ''a'')) = Inl ErrorReadingInput"
    unfolding readLines_def s by (simp add: MaxScanTokenSize_def)
  then have "ParseFromReader (replicate 70000 (CHR ''a'')) = Inl ErrorReadingInput"
    by (simp add: ParseFromReader_def)
  with s t i show ?thesis by (simp only: simp_thms)
qed

lemma readLines_short_lines:
  "list_all (\<lambda>l. length l < MaxScanTokenSize) (ScanLines input) \<Longrightarrow>
   readLines input = Inr (map (\<lambda>l. TrimSpace (dropCR l)) (ScanLines input))"
  by (auto simp: readLines_def list_all_iff list_ex_iff)

text \<open>
  C8, as the code has it. Let every line of the input be shorter than 65536 bytes, and
  \<open>lines\<close> be its lines, trimmed. When the scan reaches a line that is not empty and
  has no comma or no colon, the loop goes on at the next line with the records it has
  (no error, no block), and the result of the parse is the result of scanning the lines
  with that line made empty: nothing of the line is in any record. If no line of the
  input, once trimmed, is a timestamp line, the parse returns the empty sequence of
  records.
\<close>

theorem stray_lines_skipped:
  "(list_all (\<lambda>l. length l < MaxScanTokenSize) (ScanLines input)
      \<and> lines = map (\<lambda>l. TrimSpace (dropCR l)) (ScanLines input)
      \<and> reached lines i \<and> i < length lines \<and> lines ! i \<noteq> []
      \<and> \<not> isTimestampLine (lines ! i)
    \<longrightarrow> reached lines (i + 1)
        \<and> (\<forall>acc. scanLoop lines i acc = scanLoop lines (i + 1) acc)
        \<and> ParseFromReader input = scanLoop (lines[i := []]) 0 [])
   \<and> (list_all (\<lambda>l. length l < MaxScanTokenSize) (ScanLines input)
      \<and> list_all (\<lambda>l. \<not> isTimestampLine (TrimSpace (dropCR l))) (ScanLines input)
    \<longrightarrow> ParseFromReader input = Inr [])"
proof (intro conjI impI allI)
  assume a: "list_all (\<lambda>l. length l < MaxScanTokenSize) (ScanLines input)
      \<and> lines = map (\<lambda>l. TrimSpace (dropCR l)) (ScanLines input)
      \<and> reached lines i \<and> i < length lines \<and> lines ! i \<noteq> []
      \<and> \<not> isTimestampLine (lines ! i)"
  then have rl: "readLines input = Inr lines" by (simp add: readLines_short_lines)
  from a have r: "reached lines i" and lt: "i < length lines" and ne: "lines ! i \<noteq> []"
    and st: "\<not> isTimestampLine (lines ! i)"
    by blast+
  show "reached lines (i + 1)" using r lt ne st by (rule reached_stray)
  show "scanLoop lines i acc = scanLoop lines (i + 1) acc" for acc
    using lt st by (simp add: scanLoop_stray)
  from reached_before_update [OF lt ne r] obtain acc
    where acc: "scanLoop lines 0 [] = scanLoop lines i acc"
      "scanLoop (lines[i := []]) 0 [] = scanLoop (lines[i := []]) i acc" by auto
  from lt have "scanLoop (lines[i := []]) i acc = scanLoop (lines[i := []]) (Suc i) acc"
    by (simp add: scanLoop_blank)
  also have "\<dots> = scanLoop lines (Suc i) acc"
    by (rule scanLoop_suffix) simp_all
  also from lt st have "\<dots> = scanLoop lines i acc" by (simp add: scanLoop_stray)
  finally show "ParseFromReader input = scanLoop (lines[i := []]) 0 []"
    using rl acc by (simp add: ParseFromReader_scanLoop)
next
  assume a: "list_all (\<lambda>l. length l < MaxScanTokenSize) (ScanLines input)
      \<and> list_all (\<lambda>l. \<not> isTimestampLine (TrimSpace (dropCR l))) (ScanLines input)"
  then have "readLines input = Inr (map (\<lambda>l. TrimSpace (dropCR l)) (ScanLines input))"
    by (simp add: readLines_short_lines)
  moreover from a have "list_all (\<lambda>l. \<not> isTimestampLine l)
      (map (\<lambda>l. TrimSpace (dropCR l)) (ScanLines input))"
    by (simp add: list_all_iff)
  ultimately show "ParseFromReader input = Inr []"
    by (simp add: ParseFromReader_scanLoop scanLoop_no_timestamps)
qed

theorem stray_lines_skipped_witness:
  "reached [''note'', ''0:00:01.000,0:00:04.000'', ''Hello''] 1
   \<and> ParseFromReader ''note\<newline>0:00:01.000,0:00:04.000\<newline>Hello''
       = scanLoop [[], ''0:00:01.000,0:00:04.000'', ''Hello''] 0 []
   \<and> ParseFromReader ''invalid timestamp format\<newline>This is not a valid SBV file'' = Inr []"
proof -
  let ?inp = "''note\<newline>0:00:01.000,0:00:04.000\<newline>Hello''"
  let ?lines = "[''note'', ''0:00:01.000,0:00:04.000'', ''Hello'']"
  have sl: "ScanLines ?inp = [''note'', ''0:00:01.000,0:00:04.000'', ''Hello'']" by simp
  have t: "TrimSpace (dropCR ''note'') = ''note''"
    "TrimSpace (dropCR ''0:00:01.000,0:00:04.000'') = ''0:00:01.000,0:00:04.000''"
    "TrimSpace (dropCR ''Hello'') = ''Hello''"
    by code_simp+
  have short: "list_all (\<lambda>l. length l < MaxScanTokenSize) (ScanLines ?inp)"
    unfolding sl by (simp add: MaxScanTokenSize_def)
  have m: "?lines = map (\<lambda>l. TrimSpace (dropCR l)) (ScanLines ?inp)"
    unfolding sl by (simp add: t)
  have s: "?lines ! 0 \<noteq> []" "\<not> isTimestampLine (?lines ! 0)" by code_simp+
  have 1: "reached ?lines (0 + 1) \<and> ParseFromReader ?inp = scanLoop (?lines[0 := []]) 0 []"
    using stray_lines_skipped [of ?inp ?lines 0] short m reached_start [of ?lines] s
    by blast
  let ?inp2 = "''invalid timestamp format\<newline>This is not a valid SBV file''"
  have sl2: "ScanLines ?inp2 = [''invalid timestamp format'', ''This is not a valid SBV file'']"
    by simp
  have t2: "TrimSpace (dropCR ''invalid timestamp format'') = ''invalid timestamp format''"
    "TrimSpace (dropCR ''This is not a valid SBV file'') = ''This is not a valid SBV file''"
    by code_simp+
  have short2: "list_all (\<lambda>l. length l < MaxScanTokenSize) (ScanLines ?inp2)"
    unfolding sl2 by (simp add: MaxScanTokenSize_def)
  have n2: "list_all (\<lambda>l. \<not> isTimestampLine (TrimSpace (dropCR l))) (ScanLines ?inp2)"
    unfolding sl2 by (simp add: t2 isTimestampLine_def ContainsRune_def)
  have 2: "ParseFromReader ?inp2 = Inr []"
    using stray_lines_skipped [of ?inp2] short2 n2 by blast
  from 1 2 show ?thesis by simp
qed

subsection \<open>The milliseconds are a plain integer\<close>

text \<open>
  C9. After valid hours, minutes and seconds, the subfield after the period is accepted
  whenever \<open>Atoi\<close> reads it as an integer \<open>v\<close> from 0 to 999, whatever its number
  of digits, and counts \<open>v\<close> milliseconds; it is rejected as out of range otherwise.
  So \<open>0:00:01.5\<close> is 1 s and 5 ms, \<open>0:00:01.0050\<close> is accepted as 1 s and 50 ms,
  and \<open>0:00:01.1000\<close> is rejected because 1000 exceeds 999.
\<close>

theorem milliseconds_plain_integer:
  "(Atoi hf = Some h \<and> 0 \<le> h \<and> h \<le> 23 \<and> Atoi mf = Some m \<and> 0 \<le> m \<and> m \<le> 59
      \<and> Atoi sf = Some s \<and> 0 \<le> s \<and> s \<le> 59 \<and> Atoi msf = Some v
    \<longrightarrow> parseTime (hf @ '':'' @ mf @ '':'' @ sf @ ''.'' @ msf) =
          (if 0 \<le> v \<and> v \<le> 999
           then Inr (h * Hour + m * Minute + s * Second + v * Millisecond)
           else Inl (MillisecondsOutOfRange v)))
   \<and> parseTime ''0:00:01.5'' = Inr (1 * Second + 5 * Millisecond)
   \<and> parseTime ''0:00:01.0050'' = Inr (1 * Second + 50 * Millisecond)
   \<and> parseTime ''0:00:01.1000'' = Inl (MillisecondsOutOfRange 1000)"
proof (intro conjI impI)
  assume a: "Atoi hf = Some h \<and> 0 \<le> h \<and> h \<le> 23 \<and> Atoi mf = Some m \<and> 0 \<le> m \<and> m \<le> 59
      \<and> Atoi sf = Some s \<and> 0 \<le> s \<and> s \<le> 59 \<and> Atoi msf = Some v"
  then have ns: "CHR '':'' \<notin> set hf" "CHR '':'' \<notin> set mf" "CHR '':'' \<notin> set sf"
    "CHR '':'' \<notin> set msf" "CHR ''.'' \<notin> set sf" "CHR ''.'' \<notin> set msf"
    using Atoi_Some_no_sep by blast+
  from a have f: "Atoi hf = Some h" "0 \<le> h" "h \<le> 23" "Atoi mf = Some m" "0 \<le> m" "m \<le> 59"
    "Atoi sf = Some s" "0 \<le> s" "s \<le> 59" "Atoi msf = Some v"
    by simp_all
  show "parseTime (hf @ '':'' @ mf @ '':'' @ sf @ ''.'' @ msf) =
          (if 0 \<le> v \<and> v \<le> 999
           then Inr (h * Hour + m * Minute + s * Second + v * Millisecond)
           else Inl (MillisecondsOutOfRange v))"
    using parseTime_fields [OF ns f] by auto
next
  show "parseTime ''0:00:01.5'' = Inr (1 * Second + 5 * Millisecond)" by code_simp
next
  show "parseTime ''0:00:01.0050'' = Inr (1 * Second + 50 * Millisecond)" by code_simp
next
  show "parseTime ''0:00:01.1000'' = Inl (MillisecondsOutOfRange 1000)" by code_simp
qed

theorem milliseconds_plain_integer_witness:
  "parseTime ''07:8:009.+00042'' = Inr (7 * Hour + 8 * Minute + 9 * Second + 42 * Millisecond)"
proof -
  have p: "Atoi ''07'' = Some 7 \<and> (0 :: int) \<le> 7 \<and> (7 :: int) \<le> 23
      \<and> Atoi ''8'' = Some 8 \<and> (0 :: int) \<le> 8 \<and> (8 :: int) \<le> 59
      \<and> Atoi ''009'' = Some 9 \<and> (0 :: int) \<le> 9 \<and> (9 :: int) \<le> 59
      \<and> Atoi ''+00042'' = Some 42"
    by code_simp
  have "parseTime (''07'' @ '':'' @ ''8'' @ '':'' @ ''009'' @ ''.'' @ ''+00042'') =
          (if (0 :: int) \<le> 42 \<and> (42 :: int) \<le> 999
           then Inr (7 * Hour + 8 * Minute + 9 * Second + 42 * Millisecond)
           else Inl (MillisecondsOutOfRange 42))"
    using milliseconds_plain_integer [of "''07''" 7 "''8''" 8 "''009''" 9 "''+00042''" 42] p
    by blast
  then show ?thesis by simp
qed

subsection \<open>A timestamp line without text\<close>

text \<open>
  C10 says that the parse succeeds on every input in which a valid timestamp line is
  followed by a blank line or by the end of the input, with a record of empty text for
  that line. A malformed block elsewhere still aborts the parse (first input below), and
  a valid timestamp line that directly follows another timestamp line is the text of
  that block and starts no block of its own (second input).
\<close>

lemma readLines_bad_later_block:
  "readLines ''0:00:01.000,0:00:04.000\<newline>\<newline>0:99:00.000,0:00:01.000''
     = Inr [''0:00:01.000,0:00:04.000'', [], ''0:99:00.000,0:00:01.000'']"
proof -
  have t: "TrimSpace (dropCR ''0:00:01.000,0:00:04.000'') = ''0:00:01.000,0:00:04.000''"
    "TrimSpace (dropCR []) = []"
    "TrimSpace (dropCR ''0:99:00.000,0:00:01.000'') = ''0:99:00.000,0:00:01.000''"
    by code_simp+
  show ?thesis
    unfolding readLines_def by (simp add: MaxScanTokenSize_def t)
qed

lemma readLines_adjacent_timestamps:
  "readLines ''0:00:01.000,0:00:04.000\<newline>0:00:05.000,0:00:06.000''
     = Inr [''0:00:01.000,0:00:04.000'', ''0:00:05.000,0:00:06.000'']"
proof -
  have t: "TrimSpace (dropCR ''0:00:01.000,0:00:04.000'') = ''0:00:01.000,0:00:04.000''"
    "TrimSpace (dropCR ''0:00:05.000,0:00:06.000'') = ''0:00:05.000,0:00:06.000''"
    by code_simp+
  show ?thesis
    unfolding readLines_def by (simp add: MaxScanTokenSize_def t)
qed

theorem timestamp_without_text_counterexample:
  "readLines ''0:00:01.000,0:00:04.000\<newline>\<newline>0:99:00.000,0:00:01.000''
     = Inr [''0:00:01.000,0:00:04.000'', [], ''0:99:00.000,0:00:01.000'']
   \<and> parseTimestamps ''0:00:01.000,0:00:04.000'' = Inr (1000000000, 4000000000)
   \<and> ParseFromReader ''0:00:01.000,0:00:04.000\<newline>\<newline>0:99:00.000,0:00:01.000''
       = Inl (FailedSubtitleBlock (FailedTimestamps (FailedStartTime (MinutesOutOfRange 99))))
   \<and> readLines ''0:00:01.000,0:00:04.000\<newline>0:00:05.000,0:00:06.000''
       = Inr [''0:00:01.000,0:00:04.000'', ''0:00:05.000,0:00:06.000'']
   \<and> parseTimestamps ''0:00:05.000,0:00:06.000'' = Inr (5000000000, 6000000000)
   \<and> ParseFromReader ''0:00:01.000,0:00:04.000\<newline>0:00:05.000,0:00:06.000''
       = Inr [\<lparr>StartTime = 1000000000, EndTime = 4000000000,
               Text = ''0:00:05.000,0:00:06.000''\<rparr>]"
proof -
  have a: "parseTimestamps ''0:00:01.000,0:00:04.000'' = Inr (1000000000, 4000000000)"
    "parseTimestamps ''0:00:05.000,0:00:06.000'' = Inr (5000000000, 6000000000)"
    by code_simp+
  have "scanLoop [''0:00:01.000,0:00:04.000'', [], ''0:99:00.000,0:00:01.000''] 0 []
      = Inl (FailedSubtitleBlock (FailedTimestamps (FailedStartTime (MinutesOutOfRange 99))))"
    by code_simp
  then have b: "ParseFromReader ''0:00:01.000,0:00:04.000\<newline>\<newline>0:99:00.000,0:00:01.000''
       = Inl (FailedSubtitleBlock (FailedTimestamps (FailedStartTime (MinutesOutOfRange 99))))"
    by (simp add: ParseFromReader_def readLines_bad_later_block)
  have "scanLoop [''0:00:01.000,0:00:04.000'', ''0:00:05.000,0:00:06.000''] 0 []
      = Inr [\<lparr>StartTime = 1000000000, EndTime = 4000000000,
               Text = ''0:00:05.000,0:00:06.000''\<rparr>]"
    by code_simp
  then have c: "ParseFromReader ''0:00:01.000,0:00:04.000\<newline>0:00:05.000,0:00:06.000''
       = Inr [\<lparr>StartTime = 1000000000, EndTime = 4000000000,
               Text = ''0:00:05.000,0:00:06.000''\<rparr>]"
    by (simp add: ParseFromReader_def readLines_adjacent_timestamps)
  from a b c readLines_bad_later_block readLines_adjacent_timestamps show ?thesis
    by (simp only: simp_thms)
qed

text \<open>
  C10, as the code has it. Let the lines of the input be read. When the scan reaches a
  valid timestamp line that is followed by an empty line or by the end of the lines, the
  block parses without error into the record of the two times with the empty text, the
  parse goes on after the line with that record appended, and the record is in the
  result whenever the parse of the whole input succeeds.
\<close>

theorem timestamp_without_text:
  assumes "readLines input = Inr lines" "reached lines i" "i < length lines"
    and "parseTimestamps (lines ! i) = Inr (startTime, endTime)"
    and "Suc i = length lines \<or> lines ! Suc i = []"
  shows "parseSubtitleBlock lines i =
           Inr (\<lparr>StartTime = startTime, EndTime = endTime, Text = []\<rparr>, Suc i)
       \<and> (\<exists>acc. ParseFromReader input =
                  scanLoop lines (Suc i)
                    (acc @ [\<lparr>StartTime = startTime, EndTime = endTime, Text = []\<rparr>]))
       \<and> (\<forall>subtitles. ParseFromReader input = Inr subtitles \<longrightarrow>
             \<lparr>StartTime = startTime, EndTime = endTime, Text = []\<rparr> \<in> set subtitles)"
proof -
  let ?r = "\<lparr>StartTime = startTime, EndTime = endTime, Text = []\<rparr>"
  have tw: "takeWhile (\<lambda>l. l \<noteq> []) (drop (Suc i) lines) = []"
  proof (cases "Suc i < length lines")
    case True
    with assms(5) have "lines ! Suc i = []" by auto
    with True show ?thesis by (simp add: Cons_nth_drop_Suc [symmetric])
  next
    case False
    then show ?thesis by simp
  qed
  have blk: "parseSubtitleBlock lines i = Inr (?r, Suc i)"
    using assms(3,4) tw by (simp add: parseSubtitleBlock_Inr)
  have ts: "isTimestampLine (lines ! i)"
    using assms(4) by (rule parseTimestamps_Inr_isTimestampLine)
  from reached_scanLoop [OF assms(2)] obtain acc
    where "scanLoop lines 0 [] = scanLoop lines i acc" by blast
  with assms(1,3) ts blk
  have go: "ParseFromReader input = scanLoop lines (Suc i) (acc @ [?r])"
    by (simp add: ParseFromReader_scanLoop scanLoop_block)
  have "?r \<in> set subtitles" if "ParseFromReader input = Inr subtitles" for subtitles
    using scanLoop_acc [of lines "Suc i" "acc @ [?r]" subtitles] go that by simp
  with blk go show ?thesis by blast
qed

lemma readLines_empty_blocks:
  "readLines ''0:00:01.000,0:00:04.000\<newline>\<newline>0:00:05.000,0:00:06.000''
     = Inr [''0:00:01.000,0:00:04.000'', [], ''0:00:05.000,0:00:06.000'']"
proof -
  have t: "TrimSpace (dropCR ''0:00:01.000,0:00:04.000'') = ''0:00:01.000,0:00:04.000''"
    "TrimSpace (dropCR []) = []"
    "TrimSpace (dropCR ''0:00:05.000,0:00:06.000'') = ''0:00:05.000,0:00:06.000''"
    by code_simp+
  show ?thesis
    unfolding readLines_def by (simp add: MaxScanTokenSize_def t)
qed

theorem timestamp_without_text_witness:
  "parseSubtitleBlock [''0:00:01.000,0:00:04.000'', [], ''0:00:05.000,0:00:06.000''] 2
     = Inr (\<lparr>StartTime = 5000000000, EndTime = 6000000000, Text = []\<rparr>, 3)
   \<and> (\<exists>acc. ParseFromReader ''0:00:01.000,0:00:04.000\<newline>\<newline>0:00:05.000,0:00:06.000''
         = scanLoop [''0:00:01.000,0:00:04.000'', [], ''0:00:05.000,0:00:06.000''] 3
             (acc @ [\<lparr>StartTime = 5000000000, EndTime = 6000000000, Text = []\<rparr>]))
   \<and> ParseFromReader ''0:00:01.000,0:00:04.000\<newline>\<newline>0:00:05.000,0:00:06.000''
       = Inr [\<lparr>StartTime = 1000000000, EndTime = 4000000000, Text = []\<rparr>,
              \<lparr>StartTime = 5000000000, EndTime = 6000000000, Text = []\<rparr>]
   \<and> \<lparr>StartTime = 5000000000, EndTime = 6000000000, Text = []\<rparr>
       \<in> set [\<lparr>StartTime = 1000000000, EndTime = 4000000000, Text = []\<rparr>,
                \<lparr>StartTime = 5000000000, EndTime = 6000000000, Text = []\<rparr>]"
proof -
  let ?lines = "[''0:00:01.000,0:00:04.000'', [], ''0:00:05.000,0:00:06.000'']"
  have b: "parseSubtitleBlock ?lines 0
      = Inr (\<lparr>StartTime = 1000000000, EndTime = 4000000000, Text = []\<rparr>, 1)"
    by code_simp
  have ts: "isTimestampLine (?lines ! 0)" by code_simp
  have n: "(1 :: nat) - 1 + 1 = 1" "(1 :: nat) + 1 = 2" "Suc 2 = 3" by simp_all
  have "reached ?lines ((1 - 1) + 1)"
    by (rule reached_block [OF reached_start _ _ ts b]) simp_all
  then have "reached ?lines 1" unfolding n .
  then have "reached ?lines (1 + 1)" by (rule reached_blank) simp_all
  then have r: "reached ?lines 2" unfolding n .
  have p: "parseTimestamps (?lines ! 2) = Inr (5000000000, 6000000000)" by code_simp
  have e: "Suc 2 = length ?lines \<or> ?lines ! Suc 2 = []" by simp
  have "scanLoop ?lines 0 []
      = Inr [\<lparr>StartTime = 1000000000, EndTime = 4000000000, Text = []\<rparr>,
             \<lparr>StartTime = 5000000000, EndTime = 6000000000, Text = []\<rparr>]"
    by code_simp
  then have all: "ParseFromReader ''0:00:01.000,0:00:04.000\<newline>\<newline>0:00:05.000,0:00:06.000''
      = Inr [\<lparr>StartTime = 1000000000, EndTime = 4000000000, Text = []\<rparr>,
             \<lparr>StartTime = 5000000000, EndTime = 6000000000, Text = []\<rparr>]"
    by (simp add: ParseFromReader_def readLines_empty_blocks)
  from timestamp_without_text [OF readLines_empty_blocks r _ p e] all
  show ?thesis unfolding n by simp
qed

end
